theory Spec2Isabelle
  imports Main
begin

section \<open>The document tree\<close>

text \<open>
  The content script works on the page's DOM. A node is a text node or an element; an
  element carries its \<open>tagName\<close> (upper case, as the DOM reports it for HTML elements),
  its attributes, two facts of its computed style (whether \<open>display\<close> is \<open>none\<close>,
  whether \<open>visibility\<close> is \<open>hidden\<close>: what line 244 reads), and its \<open>childNodes\<close>.
  A node of a tree is referred to by the list of child indices leading to it from the
  root of the tree.
  Every \<open>char\<close> of a string stands for one UTF-16 code unit of the JavaScript string:
  the code only counts code units and compares them for equality.
\<close>

type_synonym path = "nat list"

type_synonym style = "bool \<times> bool"

datatype node = Text string | Elem string "(string \<times> string) list" style "node list"

datatype error = TypeError | HierarchyRequestError

fun textContent :: "node \<Rightarrow> string" where
  "textContent (Text s) = s"
| "textContent (Elem t a h cs) = concat (map textContent cs)"

fun node_at :: "node \<Rightarrow> path \<Rightarrow> node option" where
  "node_at n [] = Some n"
| "node_at (Text s) (i # p) = None"
| "node_at (Elem t a h cs) (i # p) = (if i < length cs then node_at (cs ! i) p else None)"

text \<open>\<open>modify_at p f d\<close> rewrites the node at path \<open>p\<close> of \<open>d\<close> in place.\<close>

fun modify_at :: "path \<Rightarrow> (node \<Rightarrow> node) \<Rightarrow> node \<Rightarrow> node" where
  "modify_at [] f n = f n"
| "modify_at (i # p) f (Text s) = Text s"
| "modify_at (i # p) f (Elem t a h cs) =
     (if i < length cs then Elem t a h (cs[i := modify_at p f (cs ! i)]) else Elem t a h cs)"

text \<open>Replacing the child at index \<open>k\<close> of an element by a list of nodes.\<close>

fun replace_child :: "nat \<Rightarrow> node list \<Rightarrow> node \<Rightarrow> node" where
  "replace_child k ns (Text s) = Text s"
| "replace_child k ns (Elem t a h cs) =
     (if k < length cs then Elem t a h (take k cs @ ns @ drop (Suc k) cs) else Elem t a h cs)"

subsection \<open>JavaScript strings\<close>

definition startsWith :: "string \<Rightarrow> string \<Rightarrow> bool" where
  "startsWith s t = (take (length t) s = t)"

text \<open>\<open>s.indexOf(t)\<close>, with \<open>None\<close> for \<open>-1\<close>.\<close>

fun indexOf :: "string \<Rightarrow> string \<Rightarrow> nat option" where
  "indexOf [] t = (if t = [] then Some 0 else None)"
| "indexOf (c # s) t =
     (if startsWith (c # s) t then Some 0 else map_option Suc (indexOf s t))"

definition includesStr :: "string \<Rightarrow> string \<Rightarrow> bool" where
  "includesStr s t = (indexOf s t \<noteq> None)"

definition lower_char :: "char \<Rightarrow> char" where
  "lower_char c =
     (let n = (of_char c :: nat) in if 65 \<le> n \<and> n \<le> 90 then char_of (n + 32) else c)"

definition toLowerCase :: "string \<Rightarrow> string" where
  "toLowerCase s = map lower_char s"

text \<open>The decimal rendering of a number inside a template literal.\<close>

function show_nat :: "nat \<Rightarrow> string" where
  "show_nat n =
     (if n < 10 then [char_of (48 + n)] else show_nat (n div 10) @ [char_of (48 + n mod 10)])"
  by pat_completeness auto
termination
  by (relation "measure (\<lambda>n. n)") auto

subsection \<open>Document accessors\<close>

text \<open>
  The document is the tree rooted at \<open>document.documentElement\<close>. \<open>document.body\<close> is
  the first \<open>body\<close> or \<open>frameset\<close> child of the \<open>html\<close> element, or \<open>null\<close>.
\<close>

fun first_body :: "nat \<Rightarrow> node list \<Rightarrow> nat option" where
  "first_body i [] = None"
| "first_body i (Text s # cs) = first_body (Suc i) cs"
| "first_body i (Elem t a h cs' # cs) =
     (if t = ''BODY'' \<or> t = ''FRAMESET'' then Some i else first_body (Suc i) cs)"

fun document_body :: "node \<Rightarrow> nat option" where
  "document_body (Text s) = None"
| "document_body (Elem t a h cs) = (if t = ''HTML'' then first_body 0 cs else None)"

definition elem_id :: "(string \<times> string) list \<Rightarrow> string" where
  "elem_id a = (case map_of a ''id'' of Some v \<Rightarrow> v | None \<Rightarrow> [])"

section \<open>XPath utilities\<close>

fun same_tag :: "string \<Rightarrow> node \<Rightarrow> bool" where
  "same_tag t (Text s) = False"
| "same_tag t (Elem t' a h cs) = (t' = t)"

text \<open>
  \<open>getXPath\<close> (lines 24-65). The element is given by the tree it lives in and its path
  there; \<open>att\<close> says whether the root of that tree is \<open>document.documentElement\<close> (the
  tree is the page) or the root of a detached subtree, whose \<open>parentNode\<close> is
  \<open>null\<close>. A path that denotes no node stands for a \<open>null\<close> argument. The function
  climbs to the parent, so the recursion is on the reversed path. Reading
  \<open>element.tagName.toLowerCase()\<close> on a text node raises a TypeError.
\<close>

fun getXPath_up :: "bool \<Rightarrow> node \<Rightarrow> nat list \<Rightarrow> error + string" where
  "getXPath_up att root [] =
     (case root of
        Text s \<Rightarrow> Inr []
      | Elem t a h cs \<Rightarrow>
          if elem_id a \<noteq> [] then Inr (''//*[@id='' @ [CHR 0x22] @ elem_id a @ [CHR 0x22] @ '']'')
          else if att then Inr ''/html''
          else Inr [])"
| "getXPath_up att root (i # rp) =
     (case node_at root (rev (i # rp)) of
        None \<Rightarrow> Inr []
      | Some (Text s) \<Rightarrow> Inl TypeError
      | Some (Elem t a h cs) \<Rightarrow>
          if elem_id a \<noteq> [] then Inr (''//*[@id='' @ [CHR 0x22] @ elem_id a @ [CHR 0x22] @ '']'')
          else if att \<and> rp = [] \<and> document_body root = Some i then Inr ''/html/body''
          else (case node_at root (rev rp) of
                  Some (Elem pt pa ph sibs) \<Rightarrow>
                    (case getXPath_up att root rp of
                       Inl e \<Rightarrow> Inl e
                     | Inr pre \<Rightarrow>
                         Inr (pre @ ''/'' @ toLowerCase t @ ''[''
                              @ show_nat (length (filter (same_tag t) (take i sibs)) + 1) @ '']''))
                | _ \<Rightarrow> Inr []))"

definition getXPath :: "bool \<Rightarrow> node \<Rightarrow> path \<Rightarrow> error + string" where
  "getXPath att root p = getXPath_up att root (rev p)"

text \<open>
  \<open>getElementByXPath\<close> (lines 72-86) hands the path to the browser's
  \<open>document.evaluate\<close> and turns every exception into \<open>null\<close>. The evaluator is not
  code of the extension: it is the parameter \<open>ev\<close>, from the document and the path string
  to the node found, if any.
\<close>

definition getElementByXPath :: "(node \<Rightarrow> string \<Rightarrow> path option) \<Rightarrow> node \<Rightarrow> string \<Rightarrow> path option" where
  "getElementByXPath ev d xpath = ev d xpath"

section \<open>Locating text\<close>

text \<open>
  The text nodes below an element in document order, as a \<open>TreeWalker\<close> with
  \<open>SHOW_TEXT\<close> visits them: each with its path from the element, its content, and the
  tag name and the computed style of its parent element.
\<close>

fun leaves_of :: "string \<Rightarrow> style \<Rightarrow> nat \<Rightarrow> node list \<Rightarrow> (path \<times> string \<times> string \<times> style) list" where
  "leaves_of pt ph i [] = []"
| "leaves_of pt ph i (Text s # cs) = ([i], s, pt, ph) # leaves_of pt ph (Suc i) cs"
| "leaves_of pt ph i (Elem t a h cs' # cs) =
     map (\<lambda>(p, x). (i # p, x)) (leaves_of t h 0 cs') @ leaves_of pt ph (Suc i) cs"

fun walker_nodes :: "node \<Rightarrow> (path \<times> string \<times> string \<times> style) list" where
  "walker_nodes (Text s) = []"
| "walker_nodes (Elem t a h cs) = leaves_of t h 0 cs"

text \<open>
  \<open>document.querySelector('[data-note-id="ID"]')\<close>: the first element in document
  order whose attribute has that value. Note identifiers are UUIDs (\<open>generateUUID\<close> in
  the background script), so the interpolated selector is always well formed.
\<close>

fun query_node :: "string \<Rightarrow> node \<Rightarrow> path option"
  and query_list :: "string \<Rightarrow> nat \<Rightarrow> node list \<Rightarrow> path option" where
  "query_node v (Text s) = None"
| "query_node v (Elem t a h cs) =
     (if map_of a ''data-note-id'' = Some v then Some [] else query_list v 0 cs)"
| "query_list v i [] = None"
| "query_list v i (c # cs) =
     (case query_node v c of Some p \<Rightarrow> Some (i # p) | None \<Rightarrow> query_list v (Suc i) cs)"

definition querySelector :: "node \<Rightarrow> string \<Rightarrow> path option" where
  "querySelector d noteId = query_node noteId d"

text \<open>
  \<open>findElementContainingText\<close> (lines 231-264). The filter rejects a text node whose
  parent is hidden or is a \<open>script\<close>, \<open>style\<close> or \<open>noscript\<close> element, accepts one whose
  content includes the text, and skips the others; \<open>nextNode\<close> returns the first accepted
  node, and the function its parent element. Creating the walker on a document without
  \<open>body\<close> raises a TypeError.
\<close>

definition acceptNode :: "string \<Rightarrow> (path \<times> string \<times> string \<times> style) \<Rightarrow> bool" where
  "acceptNode text l =
     (case l of (p, s, pt, ph) \<Rightarrow>
        \<not> (fst ph \<or> snd ph) \<and> pt \<notin> set [''SCRIPT'', ''STYLE'', ''NOSCRIPT''] \<and> s \<noteq> [] \<and> includesStr s text)"

definition findElementContainingText :: "node \<Rightarrow> string \<Rightarrow> error + path option" where
  "findElementContainingText d text =
     (if text = [] \<or> length text < 3 then Inr None
      else case document_body d of
        None \<Rightarrow> Inl TypeError
      | Some b \<Rightarrow>
          (case node_at d [b] of
             None \<Rightarrow> Inl TypeError
           | Some body \<Rightarrow>
               (case find (acceptNode text) (walker_nodes body) of
                  None \<Rightarrow> Inr None
                | Some (p, x) \<Rightarrow> Inr (Some (b # butlast p)))))"

section \<open>Markers\<close>

text \<open>
  \<open>createHighlightSpan\<close> (lines 146-152), with the children the caller puts into the
  span. The colour defaults to \<open>#FFEB3B\<close>. The span is not \<open>display: none\<close>, and it
  inherits \<open>visibility\<close> from the element it is inserted into.
\<close>

definition createHighlightSpan :: "string \<Rightarrow> string option \<Rightarrow> bool \<Rightarrow> node list \<Rightarrow> node" where
  "createHighlightSpan noteId color vis cs =
     Elem ''SPAN''
       [(''class'', ''mozhii-highlight''),
        (''data-note-id'', noteId),
        (''style'', ''--highlight-color: '' @ (case color of None \<Rightarrow> ''#FFEB3B'' | Some c \<Rightarrow> c) @ '';'')]
       (False, vis) cs"

text \<open>
  \<open>Range.surroundContents\<close> for a range whose start and end lie in the same node.
  Inside a text node (child \<open>k\<close> of its parent) the node is split around the range:
  the text before stays in the node, the span follows with the extracted text (no child
  at all when the range is collapsed), and the text after becomes a new text node; empty
  text nodes are left in place. Inside an element the children from \<open>so\<close> up to \<open>eo\<close>
  move into the span. \<open>None\<close> stands for an exception (no such boundary points).
\<close>

fun wrap_text :: "nat \<Rightarrow> nat \<Rightarrow> nat \<Rightarrow> string \<Rightarrow> string option \<Rightarrow> node \<Rightarrow> node" where
  "wrap_text k so eo noteId color (Text s) = Text s"
| "wrap_text k so eo noteId color (Elem t a h cs) =
     (if k < length cs then
        (case cs ! k of
           Text s \<Rightarrow>
             replace_child k
               [Text (take so s),
                createHighlightSpan noteId color (snd h)
                  (if so = eo then [] else [Text (take (eo - so) (drop so s))]),
                Text (drop eo s)]
               (Elem t a h cs)
         | Elem t' a' h' cs' \<Rightarrow> Elem t a h cs)
      else Elem t a h cs)"

fun wrap_children :: "nat \<Rightarrow> nat \<Rightarrow> string \<Rightarrow> string option \<Rightarrow> node \<Rightarrow> node" where
  "wrap_children so eo noteId color (Text s) = Text s"
| "wrap_children so eo noteId color (Elem t a h cs) =
     Elem t a h
       (take so cs @ [createHighlightSpan noteId color (snd h) (take (eo - so) (drop so cs))]
        @ drop eo cs)"

definition surroundContents :: "node \<Rightarrow> path \<Rightarrow> nat \<Rightarrow> nat \<Rightarrow> string \<Rightarrow> string option \<Rightarrow> node option" where
  "surroundContents d c so eo noteId color =
     (case node_at d c of
        None \<Rightarrow> None
      | Some (Text s) \<Rightarrow>
          if c \<noteq> [] \<and> so \<le> eo \<and> eo \<le> length s
          then Some (modify_at (butlast c) (wrap_text (last c) so eo noteId color) d)
          else None
      | Some (Elem t a h cs) \<Rightarrow>
          if so \<le> eo \<and> eo \<le> length cs
          then Some (modify_at c (wrap_children so eo noteId color) d)
          else None)"

text \<open>
  The fallback of lines 327-331: \<open>extractContents\<close>, \<open>appendChild\<close> and
  \<open>insertNode\<close>. On a range inside one node the three calls build the tree that
  \<open>surroundContents\<close> builds, and fail where it fails.
\<close>

definition extractAndInsert :: "node \<Rightarrow> path \<Rightarrow> nat \<Rightarrow> nat \<Rightarrow> string \<Rightarrow> string option \<Rightarrow> node option" where
  "extractAndInsert d c so eo noteId color = surroundContents d c so eo noteId color"

record noteData =
  noteId :: string
  noteText :: string
  elementPath :: string
  highlightColor :: "string option"

text \<open>
  \<open>tryApplyHighlight\<close> (lines 296-356): the first text node below the element whose
  content has the note's text is wrapped from the index of the text on. The result is
  the new span (its path in the document) or \<open>null\<close>, and the document. Every path
  that finds no such text node returns \<open>null\<close> and leaves the document as it is.
\<close>

definition hasText :: "string \<Rightarrow> (path \<times> string \<times> string \<times> style) \<Rightarrow> bool" where
  "hasText text l = (case l of (p, s, x) \<Rightarrow> indexOf s text \<noteq> None)"

definition tryApplyHighlight :: "node \<Rightarrow> path \<Rightarrow> noteData \<Rightarrow> path option \<times> node" where
  "tryApplyHighlight d element nd =
     (case node_at d element of
        None \<Rightarrow> (None, d)
      | Some n \<Rightarrow>
          (case find (hasText (noteText nd)) (walker_nodes n) of
             None \<Rightarrow> (None, d)
           | Some (p, s, x) \<Rightarrow>
               (case indexOf s (noteText nd) of
                  None \<Rightarrow> (None, d)
                | Some textIndex \<Rightarrow>
                    (case surroundContents d (element @ p) textIndex
                            (textIndex + length (noteText nd)) (noteId nd) (highlightColor nd) of
                       Some d' \<Rightarrow> (Some (element @ butlast p @ [Suc (last p)]), d')
                     | None \<Rightarrow>
                         (case extractAndInsert d (element @ p) textIndex
                                 (textIndex + length (noteText nd)) (noteId nd) (highlightColor nd) of
                            Some d' \<Rightarrow> (Some (element @ butlast p @ [Suc (last p)]), d')
                          | None \<Rightarrow> (None, d))))))"

text \<open>
  \<open>Node.normalize\<close>: below the node, empty text nodes are removed and adjacent text
  nodes are merged into the first of them.
\<close>

fun normalize :: "node \<Rightarrow> node"
  and normalize_list :: "node list \<Rightarrow> node list" where
  "normalize (Text s) = Text s"
| "normalize (Elem t a h cs) = Elem t a h (normalize_list cs)"
| "normalize_list [] = []"
| "normalize_list (c # cs) =
     (case c of
        Text s \<Rightarrow>
          (if s = [] then normalize_list cs
           else (case normalize_list cs of
                   Text s' # r \<Rightarrow> Text (s @ s') # r
                 | r \<Rightarrow> Text s # r))
      | Elem t a h cs' \<Rightarrow> normalize c # normalize_list cs)"

text \<open>
  \<open>removeHighlight\<close> (lines 362-372): the first element carrying the identifier is
  replaced by its children in its parent, and the parent is normalised. When that
  element is the root of the document its parent is the document itself, which accepts
  no further child: \<open>insertBefore\<close> raises a HierarchyRequestError (a root without
  children would leave the document empty, which the tree type does not represent; the
  model reports the same error).
\<close>

fun unwrap_child :: "nat \<Rightarrow> node \<Rightarrow> node" where
  "unwrap_child k (Text s) = Text s"
| "unwrap_child k (Elem t a h cs) =
     (if k < length cs then
        (case cs ! k of
           Text s \<Rightarrow> Elem t a h cs
         | Elem t' a' h' cs' \<Rightarrow> replace_child k cs' (Elem t a h cs))
      else Elem t a h cs)"

definition removeHighlight :: "node \<Rightarrow> string \<Rightarrow> error + node" where
  "removeHighlight d nid =
     (case querySelector d nid of
        None \<Rightarrow> Inr d
      | Some highlight \<Rightarrow>
          if highlight = [] then Inl HierarchyRequestError
          else Inr (modify_at (butlast highlight)
                      (\<lambda>parent. normalize (unwrap_child (last highlight) parent)) d))"

section \<open>The state of the content script\<close>

text \<open>
  A \<open>Range\<close> by its boundary points; the selection is \<open>null\<close> or its list of ranges.
\<close>

record domRange =
  startContainer :: path
  startOffset :: nat
  endContainer :: path
  endOffset :: nat

text \<open>
  The closures handed to \<open>setTimeout\<close>: the retry of \<open>scheduleHighlightRetry\<close>
  (line 280), the delayed part of \<open>restoreNoteContext\<close> (line 390), the end of the pulse
  (line 405), the debounced pass of the mutation observer (line 505) and its
  auto-disconnect (line 546), and the two closures of \<open>showToast\<close> that hide a toast
  (line 583) and take it out of the document (line 585). The last two hold the toast
  they were made for, here by its key.
\<close>

datatype callback =
    RetryCb noteData
  | RestoreCb noteData
  | PulseOffCb
  | DebounceCb
  | DisconnectCb
  | ToastHideCb nat
  | ToastRemoveCb nat

text \<open>
  The observer object held by \<open>highlightObserver\<close>: the identifier in its
  \<open>debounceTimer\<close> variable, and the time at which \<open>observe\<close> attached it
  (\<open>None\<close> when \<open>observe\<close> raised).
\<close>

record observer =
  attachedAt :: "nat option"
  debounceTimer :: "nat option"

text \<open>
  The state: the document and the selection; the retry counters \<open>window['retry_' + id]\<close>;
  the module variables \<open>pendingHighlights\<close>, \<open>highlightObserver\<close> and
  \<open>extensionContextValid\<close>; the clock in milliseconds and the timers of the event loop
  (identifier, due time, closure). Class lists and scroll positions are presentation
  and are not tracked; the side notification and the annotation modal are not
  modelled. The ranges of the selection are not moved along when the tree changes; the
  selection is whatever the last \<open>Select\<close> event or \<open>removeAllRanges\<close> made it.
\<close>

record state =
  doc :: node
  selection :: "domRange list option"
  retry :: "string \<Rightarrow> nat option"
  pendingHighlights :: "noteData list"
  highlightObserver :: "observer option"
  extensionContextValid :: bool
  now :: nat
  nextTimer :: nat
  timers :: "(nat \<times> nat \<times> callback) list"

definition setTimeout :: "callback \<Rightarrow> nat \<Rightarrow> state \<Rightarrow> state" where
  "setTimeout cb delay st =
     st\<lparr>timers := timers st @ [(nextTimer st, now st + delay, cb)],
        nextTimer := Suc (nextTimer st)\<rparr>"

definition clearTimeout :: "nat \<Rightarrow> state \<Rightarrow> state" where
  "clearTimeout i st = st\<lparr>timers := filter (\<lambda>t. fst t \<noteq> i) (timers st)\<rparr>"

section \<open>Toasts\<close>

text \<open>
  \<open>document.getElementById\<close> and the look-up of a node by its key: the first element
  in document order whose attribute has the value.
\<close>

fun attr_node :: "string \<Rightarrow> string \<Rightarrow> node \<Rightarrow> path option"
  and attr_list :: "string \<Rightarrow> string \<Rightarrow> nat \<Rightarrow> node list \<Rightarrow> path option" where
  "attr_node k v (Text s) = None"
| "attr_node k v (Elem t a h cs) =
     (if map_of a k = Some v then Some [] else attr_list k v 0 cs)"
| "attr_list k v i [] = None"
| "attr_list k v i (c # cs) =
     (case attr_node k v c of Some p \<Rightarrow> Some (i # p) | None \<Rightarrow> attr_list k v (Suc i) cs)"

definition getElementById :: "node \<Rightarrow> string \<Rightarrow> path option" where
  "getElementById d v = attr_node ''id'' v d"

text \<open>\<open>ChildNode.remove\<close> for a node that has a parent.\<close>

definition remove_at :: "path \<Rightarrow> node \<Rightarrow> node" where
  "remove_at p d = modify_at (butlast p) (replace_child (last p) []) d"

text \<open>
  The two messages. The first letter of the second is the check mark U+2705, one code
  unit; the letters of the model are bytes, and the byte 5 stands for it.
\<close>

definition could_not_locate_message :: string where
  "could_not_locate_message = ''Could not locate the exact text. It may have been modified.''"

definition saved_message :: string where
  "saved_message = CHR 0x05 # '' Saved in CrazyNote''"

text \<open>
  The element that \<open>showToast\<close> creates (lines 570-573). The closures of lines 583-587
  hold on to this very node, wherever it is later. A tree of values has no node
  identity, so the toast carries a key in an attribute that no page can have (its name
  has a space); no function of the content script reads it but the look-up of the
  closure. As for the span of a marker, the toast is taken to be displayed and to
  inherit \<open>visibility\<close> from the body.
\<close>

definition node_key :: string where
  "node_key = ''node key''"

definition toast_element :: "string \<Rightarrow> nat \<Rightarrow> bool \<Rightarrow> node" where
  "toast_element message key vis =
     Elem ''DIV''
       [(''id'', ''mozhii-toast''), (''class'', ''mozhii-toast''), (node_key, show_nat key)]
       (False, vis) (if message = [] then [] else [Text message])"

fun append_toast :: "string \<Rightarrow> nat \<Rightarrow> node \<Rightarrow> node" where
  "append_toast message key (Text s) = Text s"
| "append_toast message key (Elem t a h cs) =
     Elem t a h (cs @ [toast_element message key (snd h)])"

text \<open>The document once an existing toast is taken out (lines 565-568).\<close>

definition withoutToast :: "node \<Rightarrow> node" where
  "withoutToast d =
     (case getElementById d ''mozhii-toast'' of None \<Rightarrow> d | Some p \<Rightarrow> remove_at p d)"

text \<open>
  \<open>showToast\<close> (lines 563-589): the state, and the exception if one was raised.
  \<open>document.body.appendChild\<close> raises a TypeError on a document without body; the
  existing toast is gone by then. (When the root element itself has the identifier of
  the toast, removing it empties the document, which the tree type does not represent;
  the model raises the TypeError of the missing body there and leaves the tree.) The
  callback given to \<open>requestAnimationFrame\<close> only changes the class list. The key of
  the toast is the identifier of its timer.
\<close>

definition appendToast :: "string \<Rightarrow> nat \<Rightarrow> node \<Rightarrow> state \<Rightarrow> error option \<times> state" where
  "appendToast message duration d st =
     (case document_body d of
        None \<Rightarrow> (Some TypeError, st\<lparr>doc := d\<rparr>)
      | Some b \<Rightarrow>
          (None,
           setTimeout (ToastHideCb (nextTimer st)) duration
             (st\<lparr>doc := modify_at [b] (append_toast message (nextTimer st)) d\<rparr>)))"

definition showToast :: "string \<Rightarrow> nat \<Rightarrow> state \<Rightarrow> error option \<times> state" where
  "showToast message duration st =
     (if getElementById (doc st) ''mozhii-toast'' = Some [] then (Some TypeError, st)
      else appendToast message duration (withoutToast (doc st)) st)"

text \<open>
  The closures of lines 583-587: the first only changes the class list and sets the
  timer of the second, which removes the toast if it is still in the document.
\<close>

definition toastHideDelayed :: "nat \<Rightarrow> state \<Rightarrow> state" where
  "toastHideDelayed key st = setTimeout (ToastRemoveCb key) 300 st"

definition toastRemoveDelayed :: "nat \<Rightarrow> state \<Rightarrow> state" where
  "toastRemoveDelayed key st =
     (case attr_node node_key (show_nat key) (doc st) of
        None \<Rightarrow> st
      | Some p \<Rightarrow> if p = [] then st else st\<lparr>doc := remove_at p (doc st)\<rparr>)"

section \<open>Highlighting\<close>

text \<open>\<open>applyHighlightToSelection\<close> (lines 160-194).\<close>

definition isCollapsed :: "domRange list \<Rightarrow> bool" where
  "isCollapsed rs =
     (case rs of
        [] \<Rightarrow> True
      | r # rest \<Rightarrow> startContainer r = endContainer r \<and> startOffset r = endOffset r)"

definition applyHighlightToSelection :: "string \<Rightarrow> string option \<Rightarrow> state \<Rightarrow> bool \<times> state" where
  "applyHighlightToSelection nid color st =
     (case selection st of
        None \<Rightarrow> (False, st)
      | Some rs \<Rightarrow>
          (case rs of
             [] \<Rightarrow> (False, st)
           | r # rest \<Rightarrow>
               if isCollapsed rs then (False, st)
               else if startContainer r \<noteq> endContainer r
               then (False, st\<lparr>selection := Some []\<rparr>)
               else (case surroundContents (doc st) (startContainer r) (startOffset r)
                            (endOffset r) nid color of
                       Some d' \<Rightarrow> (True, st\<lparr>doc := d', selection := Some []\<rparr>)
                     | None \<Rightarrow> (False, st))))"

text \<open>\<open>scheduleHighlightRetry\<close> (lines 270-288).\<close>

definition scheduleHighlightRetry :: "noteData \<Rightarrow> state \<Rightarrow> state" where
  "scheduleHighlightRetry nd st =
     (let retryCount = (case retry st (noteId nd) of None \<Rightarrow> 0 | Some c \<Rightarrow> c) in
      if retryCount < 3
      then setTimeout (RetryCb nd) (1000 * (retryCount + 1))
             (st\<lparr>retry := (retry st)(noteId nd \<mapsto> retryCount + 1)\<rparr>)
      else st)"

text \<open>
  \<open>applyHighlightFromData\<close> (lines 201-224). An exception of the text search leaves
  the function before anything was changed.
\<close>

definition applyIn :: "path \<Rightarrow> noteData \<Rightarrow> state \<Rightarrow> path option \<times> state" where
  "applyIn element nd st =
     (case tryApplyHighlight (doc st) element nd of (r, d') \<Rightarrow> (r, st\<lparr>doc := d'\<rparr>))"

definition applyHighlightFromData ::
  "(node \<Rightarrow> string \<Rightarrow> path option) \<Rightarrow> noteData \<Rightarrow> state \<Rightarrow> error + (path option \<times> state)" where
  "applyHighlightFromData ev nd st =
     (case querySelector (doc st) (noteId nd) of
        Some existing \<Rightarrow> Inr (Some existing, st)
      | None \<Rightarrow>
          (case getElementByXPath ev (doc st) (elementPath nd) of
             Some element \<Rightarrow> Inr (applyIn element nd st)
           | None \<Rightarrow>
               (case findElementContainingText (doc st) (noteText nd) of
                  Inl e \<Rightarrow> Inl e
                | Inr None \<Rightarrow> Inr (None, scheduleHighlightRetry nd st)
                | Inr (Some element) \<Rightarrow> Inr (applyIn element nd st))))"

text \<open>
  \<open>restoreNoteContext\<close> (lines 382-413) and its delayed part. An exception of
  \<open>showToast\<close> ends the closure, and nothing follows the call.
\<close>

definition restoreNoteContext :: "noteData \<Rightarrow> state \<Rightarrow> state" where
  "restoreNoteContext nd st = setTimeout (RestoreCb nd) 600 st"

definition restoreDelayed :: "(node \<Rightarrow> string \<Rightarrow> path option) \<Rightarrow> noteData \<Rightarrow> state \<Rightarrow> state" where
  "restoreDelayed ev nd st =
     (case applyHighlightFromData ev nd st of
        Inl e \<Rightarrow> st
      | Inr (Some highlight, st') \<Rightarrow> setTimeout PulseOffCb 2500 st'
      | Inr (None, st') \<Rightarrow> snd (showToast could_not_locate_message 3000 st'))"

text \<open>The retry closure of \<open>scheduleHighlightRetry\<close> (lines 280-286).\<close>

definition retryDelayed :: "noteData \<Rightarrow> state \<Rightarrow> state" where
  "retryDelayed nd st =
     (case findElementContainingText (doc st) (noteText nd) of
        Inl e \<Rightarrow> st
      | Inr None \<Rightarrow> st
      | Inr (Some element) \<Rightarrow>
          (case applyIn element nd st of
             (r, st') \<Rightarrow> st'\<lparr>retry := (retry st')(noteId nd := None)\<rparr>))"

section \<open>The mutation observer\<close>

text \<open>
  \<open>setupDynamicContentObserver\<close> (lines 496-552). The observer is stored before
  \<open>observe\<close> is called; on a document without \<open>body\<close> that call raises and the timer
  of line 546 is not set.
\<close>

definition setupDynamicContentObserver :: "state \<Rightarrow> state" where
  "setupDynamicContentObserver st =
     (if highlightObserver st \<noteq> None then st
      else case document_body (doc st) of
        None \<Rightarrow> st\<lparr>highlightObserver := Some \<lparr>attachedAt = None, debounceTimer = None\<rparr>\<rparr>
      | Some b \<Rightarrow>
          setTimeout DisconnectCb 30000
            (st\<lparr>highlightObserver :=
                  Some \<lparr>attachedAt = Some (now st), debounceTimer = None\<rparr>\<rparr>))"

text \<open>The callback of the observer (lines 501-538): the debounce.\<close>

definition observerCallback :: "state \<Rightarrow> state" where
  "observerCallback st =
     (case highlightObserver st of
        None \<Rightarrow> st
      | Some ob \<Rightarrow>
          (let st1 = (case debounceTimer ob of None \<Rightarrow> st | Some i \<Rightarrow> clearTimeout i st);
               st2 = setTimeout DebounceCb 500 st1
           in st2\<lparr>highlightObserver := Some (ob\<lparr>debounceTimer := Some (nextTimer st1)\<rparr>)\<rparr>))"

text \<open>
  The loop of lines 515-528 over the pending notes, with the document and the list
  \<open>stillPending\<close>; \<open>None\<close> in place of the list when the text search raised.
\<close>

fun batchPass :: "noteData list \<Rightarrow> node \<Rightarrow> noteData list \<Rightarrow> node \<times> noteData list option" where
  "batchPass [] d stillPending = (d, Some stillPending)"
| "batchPass (note # ns) d stillPending =
     (if querySelector d (noteId note) \<noteq> None then batchPass ns d stillPending
      else case findElementContainingText d (noteText note) of
        Inl e \<Rightarrow> (d, None)
      | Inr None \<Rightarrow> batchPass ns d (stillPending @ [note])
      | Inr (Some element) \<Rightarrow>
          (case tryApplyHighlight d element note of
             (None, d') \<Rightarrow> batchPass ns d' (stillPending @ [note])
           | (Some result, d') \<Rightarrow> batchPass ns d' stillPending))"

text \<open>
  The debounced closure (lines 505-537). With nothing pending and no observer left,
  \<open>highlightObserver.disconnect()\<close> raises on \<open>null\<close>.
\<close>

definition debounceDelayed :: "state \<Rightarrow> state" where
  "debounceDelayed st =
     (if pendingHighlights st = [] then st\<lparr>highlightObserver := None\<rparr>
      else case batchPass (pendingHighlights st) (doc st) [] of
        (d', None) \<Rightarrow> st\<lparr>doc := d'\<rparr>
      | (d', Some stillPending) \<Rightarrow>
          (let st' = st\<lparr>doc := d', pendingHighlights := stillPending\<rparr> in
           if stillPending = [] \<and> highlightObserver st' \<noteq> None
           then st'\<lparr>highlightObserver := None\<rparr> else st'))"

definition disconnectDelayed :: "state \<Rightarrow> state" where
  "disconnectDelayed st =
     (if highlightObserver st \<noteq> None then st\<lparr>highlightObserver := None\<rparr> else st)"

section \<open>Loading the highlights of a page\<close>

text \<open>
  \<open>loadPageHighlights\<close> (lines 439-491) after the background script has answered: the
  loop over the notes of the page, which the surrounding \<open>try\<close> leaves at the first
  exception, and the set-up of the observer.
\<close>

fun loadEach :: "(node \<Rightarrow> string \<Rightarrow> path option) \<Rightarrow> noteData list \<Rightarrow> state \<Rightarrow> state \<times> bool" where
  "loadEach ev [] st = (st, True)"
| "loadEach ev (note # ns) st =
     (case applyHighlightFromData ev note st of
        Inl e \<Rightarrow> (st, False)
      | Inr (None, st') \<Rightarrow> loadEach ev ns st'
      | Inr (Some result, st') \<Rightarrow>
          loadEach ev ns
            (st'\<lparr>pendingHighlights :=
                   filter (\<lambda>n. noteId n \<noteq> noteId note) (pendingHighlights st')\<rparr>))"

definition loadPageHighlights :: "(node \<Rightarrow> string \<Rightarrow> path option) \<Rightarrow> noteData list \<Rightarrow> state \<Rightarrow> state" where
  "loadPageHighlights ev response st =
     (case loadEach ev response (st\<lparr>pendingHighlights := response\<rparr>) of
        (st', False) \<Rightarrow> st'
      | (st', True) \<Rightarrow>
          if pendingHighlights st' \<noteq> [] then setupDynamicContentObserver st' else st')"

section \<open>The event loop\<close>

definition run_callback :: "(node \<Rightarrow> string \<Rightarrow> path option) \<Rightarrow> callback \<Rightarrow> state \<Rightarrow> state" where
  "run_callback ev cb st =
     (case cb of
        RetryCb nd \<Rightarrow> retryDelayed nd st
      | RestoreCb nd \<Rightarrow> restoreDelayed ev nd st
      | PulseOffCb \<Rightarrow> st
      | ToastHideCb key \<Rightarrow> toastHideDelayed key st
      | ToastRemoveCb key \<Rightarrow> toastRemoveDelayed key st
      | DebounceCb \<Rightarrow> debounceDelayed st
      | DisconnectCb \<Rightarrow> disconnectDelayed st)"

text \<open>The timer that fires next: the earliest due time, the oldest timer among equals.\<close>

fun earliest :: "(nat \<times> nat \<times> callback) list \<Rightarrow> (nat \<times> nat \<times> callback) option" where
  "earliest [] = None"
| "earliest (t # ts) =
     (case earliest ts of
        None \<Rightarrow> Some t
      | Some u \<Rightarrow> if fst (snd u) < fst (snd t) then Some u else Some t)"

definition fire :: "(node \<Rightarrow> string \<Rightarrow> path option) \<Rightarrow> state \<Rightarrow> state" where
  "fire ev st =
     (case earliest (timers st) of
        None \<Rightarrow> st
      | Some (i, due, cb) \<Rightarrow>
          run_callback ev cb
            (st\<lparr>timers := filter (\<lambda>t. fst t \<noteq> i) (timers st), now := max (now st) due\<rparr>))"

section \<open>Messages and events\<close>

text \<open>
  The message listener (lines 720-766). \<open>ctx\<close> is what \<open>isExtensionContextValid()\<close>
  answers at that moment; the listener does nothing unless the context is valid. An
  exception of \<open>removeHighlight\<close> or of \<open>showToast\<close> ends the handler. Of
  \<open>showSaveConfirmation\<close> (lines 777-790) the toast and the highlighting of the
  selection are modelled; the side notification shown between them (lines 797-880) is
  built by the HTML parser from the text of the note and is left out.
\<close>

datatype message =
    CaptureNote
  | HighlightSaved string
  | ShowSaveConfirmation noteData
  | RestoreNote noteData
  | RemoveHighlight string
  | Ping
  | UnknownAction

definition onMessage :: "bool \<Rightarrow> message \<Rightarrow> state \<Rightarrow> state" where
  "onMessage ctx msg st =
     (if extensionContextValid st \<and> ctx then
        (case msg of
           CaptureNote \<Rightarrow> st
         | HighlightSaved nid \<Rightarrow> snd (applyHighlightToSelection nid None st)
         | ShowSaveConfirmation nd \<Rightarrow>
             (case showToast saved_message 2500 st of
                (Some e, st') \<Rightarrow> st'
              | (None, st') \<Rightarrow>
                  snd (applyHighlightToSelection (noteId nd) (highlightColor nd) st'))
         | RestoreNote nd \<Rightarrow> restoreNoteContext nd st
         | RemoveHighlight nid \<Rightarrow>
             (case removeHighlight (doc st) nid of Inl e \<Rightarrow> st | Inr d' \<Rightarrow> st\<lparr>doc := d'\<rparr>)
         | Ping \<Rightarrow> st
         | UnknownAction \<Rightarrow> st)
      else st)"

text \<open>
  The ways a run of \<open>loadPageHighlights\<close> can go: the extension context is gone at
  entry; sending the request fails because the context was invalidated; it fails
  otherwise; the answer is not an array; the answer is the list of notes of the page.
\<close>

datatype load_outcome =
    ContextGone
  | SendInvalidated
  | SendFailed
  | NoResponse
  | Response "noteData list"

definition loadPage :: "(node \<Rightarrow> string \<Rightarrow> path option) \<Rightarrow> load_outcome \<Rightarrow> state \<Rightarrow> state" where
  "loadPage ev outcome st =
     (case outcome of
        ContextGone \<Rightarrow> st\<lparr>extensionContextValid := False\<rparr>
      | SendInvalidated \<Rightarrow> st\<lparr>extensionContextValid := False, highlightObserver := None\<rparr>
      | SendFailed \<Rightarrow> st
      | NoResponse \<Rightarrow> st
      | Response notes \<Rightarrow> loadPageHighlights ev notes st)"

text \<open>
  What can happen to the content script: the next timer fires; time passes, up to the
  due time of the next timer; the page changes its tree; the browser delivers mutation
  records to the attached observer; a message arrives; a run of \<open>loadPageHighlights\<close>
  completes; the user changes the selection.
\<close>

datatype event =
    Fire
  | Advance nat
  | Mutate node
  | Notify
  | Message bool message
  | Load load_outcome
  | Select "domRange list option"

definition attached :: "state \<Rightarrow> bool" where
  "attached st = (case highlightObserver st of None \<Rightarrow> False | Some ob \<Rightarrow> attachedAt ob \<noteq> None)"

definition step :: "(node \<Rightarrow> string \<Rightarrow> path option) \<Rightarrow> event \<Rightarrow> state \<Rightarrow> state" where
  "step ev e st =
     (case e of
        Fire \<Rightarrow> fire ev st
      | Advance t \<Rightarrow>
          if now st \<le> t \<and> list_all (\<lambda>x. t \<le> fst (snd x)) (timers st) then st\<lparr>now := t\<rparr> else st
      | Mutate d' \<Rightarrow> st\<lparr>doc := d'\<rparr>
      | Notify \<Rightarrow> if attached st then observerCallback st else st
      | Message ctx msg \<Rightarrow> onMessage ctx msg st
      | Load outcome \<Rightarrow> loadPage ev outcome st
      | Select sel \<Rightarrow> st\<lparr>selection := sel\<rparr>)"

text \<open>The content script right after its injection into a page.\<close>

definition initial :: "node \<Rightarrow> state" where
  "initial d =
     \<lparr>doc = d, selection = None, retry = (\<lambda>k. None), pendingHighlights = [],
      highlightObserver = None, extensionContextValid = True, now = 0, nextTimer = 1,
      timers = []\<rparr>"

inductive reachable :: "(node \<Rightarrow> string \<Rightarrow> path option) \<Rightarrow> state \<Rightarrow> bool" for ev where
  reachable_initial: "reachable ev (initial d)"
| reachable_step: "reachable ev st \<Longrightarrow> reachable ev (step ev e st)"

fun run :: "(node \<Rightarrow> string \<Rightarrow> path option) \<Rightarrow> event list \<Rightarrow> state \<Rightarrow> state" where
  "run ev [] st = st"
| "run ev (e # es) st = run ev es (step ev e st)"

text \<open>The number of elements that carry a note identifier.\<close>

fun count_markers :: "string \<Rightarrow> node \<Rightarrow> nat" where
  "count_markers v (Text s) = 0"
| "count_markers v (Elem t a h cs) =
     (if map_of a ''data-note-id'' = Some v then 1 else 0) + sum_list (map (count_markers v) cs)"

section \<open>An invariant of the event loop\<close>

text \<open>
  No timer is overdue, timer identifiers are below the next one to be given out, and
  no two timers share an identifier.
\<close>

definition timers_ok :: "state \<Rightarrow> bool" where
  "timers_ok st =
     (list_all (\<lambda>t. now st \<le> fst (snd t) \<and> fst t < nextTimer st) (timers st)
      \<and> distinct (map fst (timers st)))"

text \<open>
  An attached observer still has its auto-disconnect timer in the queue, due at most
  30000 ms after the attachment; and the identifier in its \<open>debounceTimer\<close> variable
  was given out earlier and names no timer but a debounce timer.
\<close>

definition observer_ok :: "state \<Rightarrow> bool" where
  "observer_ok st =
     (case highlightObserver st of
        None \<Rightarrow> True
      | Some ob \<Rightarrow>
          (case attachedAt ob of
             None \<Rightarrow> True
           | Some t0 \<Rightarrow>
               list_ex (\<lambda>t. snd (snd t) = DisconnectCb \<and> fst (snd t) \<le> t0 + 30000) (timers st))
          \<and> (case debounceTimer ob of
                None \<Rightarrow> True
              | Some j \<Rightarrow>
                  j < nextTimer st
                  \<and> list_all (\<lambda>t. fst t = j \<and> snd (snd t) \<noteq> DebounceCb \<longrightarrow> False) (timers st)))"

definition loop_inv :: "state \<Rightarrow> bool" where
  "loop_inv st = (timers_ok st \<and> observer_ok st)"

text \<open>
  \<open>grows st st'\<close>: from \<open>st\<close> to \<open>st'\<close> the clock and the observer stay, and the
  timers only get new ones appended, none of them overdue, with fresh identifiers.
\<close>

definition grows :: "state \<Rightarrow> state \<Rightarrow> bool" where
  "grows st st' =
     (now st' = now st \<and> highlightObserver st' = highlightObserver st
      \<and> nextTimer st \<le> nextTimer st'
      \<and> take (length (timers st)) (timers st') = timers st
      \<and> list_all (\<lambda>t. now st \<le> fst (snd t) \<and> nextTimer st \<le> fst t \<and> fst t < nextTimer st')
            (drop (length (timers st)) (timers st'))
      \<and> distinct (map fst (drop (length (timers st)) (timers st'))))"

section \<open>Pages and notes used as examples\<close>

definition page_hello :: node where
  "page_hello =
     Elem ''HTML'' [] (False, False)
       [Elem ''HEAD'' [] (False, False) [],
        Elem ''BODY'' [] (False, False)
          [Elem ''P'' [] (False, False) [Text ''say hello world now'']]]"

definition page_loading :: node where
  "page_loading =
     Elem ''HTML'' [] (False, False)
       [Elem ''HEAD'' [] (False, False) [],
        Elem ''BODY'' [] (False, False)
          [Elem ''P'' [] (False, False) [Text ''loading'']]]"

definition page_two :: node where
  "page_two =
     Elem ''HTML'' [] (False, False)
       [Elem ''HEAD'' [] (False, False) [],
        Elem ''BODY'' [] (False, False)
          [Elem ''P'' [] (False, False) [Text ''first paragraph''],
           Elem ''P'' [] (False, False) [Text ''second paragraph'']]]"

text \<open>A document that has lost its body.\<close>

definition page_no_body :: node where
  "page_no_body =
     Elem ''HTML'' [] (False, False) [Elem ''HEAD'' [] (False, False) []]"

text \<open>\<open>page_hello\<close> with the marker of \<open>note_hello\<close> around its text.\<close>

definition page_hello_marked :: node where
  "page_hello_marked =
     Elem ''HTML'' [] (False, False)
       [Elem ''HEAD'' [] (False, False) [],
        Elem ''BODY'' [] (False, False)
          [Elem ''P'' [] (False, False)
             [Text ''say '',
              Elem ''SPAN''
                [(''class'', ''mozhii-highlight''),
                 (''data-note-id'', ''3f2b8c1e-5a47-4d09-9c3e-7b1a2d4e6f80''),
                 (''style'', ''--highlight-color: #FFEB3B;'')]
                (False, False) [Text ''hello world''],
              Text '' now'']]]"

text \<open>An evaluator for a page on which the stored path matches nothing any more.\<close>

definition no_xpath :: "node \<Rightarrow> string \<Rightarrow> path option" where
  "no_xpath d x = None"


definition note_hello :: noteData where
  "note_hello =
     \<lparr>noteId = ''3f2b8c1e-5a47-4d09-9c3e-7b1a2d4e6f80'', noteText = ''hello world'',
      elementPath = ''/html/body/div[2]/p[1]'', highlightColor = Some ''#FFEB3B''\<rparr>"

definition note_short :: noteData where
  "note_short =
     \<lparr>noteId = ''0d9e4b7a-1c2f-4e58-8a6b-3c5d7e9f1a20'', noteText = ''lo'',
      elementPath = ''/html/body/p[1]'', highlightColor = Some ''#FFEB3B''\<rparr>"



definition note_gone :: noteData where
  "note_gone =
     \<lparr>noteId = ''c4e6a8b0-2d4f-4a71-9b3c-5e7f9a1c3e52'', noteText = ''text that never loads'',
      elementPath = ''/html/body/div[2]/p[1]'', highlightColor = Some ''#FFEB3B''\<rparr>"

definition cross_selection :: "domRange list option" where
  "cross_selection =
     Some [\<lparr>startContainer = [1, 0, 0], startOffset = 6,
            endContainer = [1, 1, 0], endOffset = 6\<rparr>]"

definition collapsed_selection :: "domRange list option" where
  "collapsed_selection =
     Some [\<lparr>startContainer = [1, 0, 0], startOffset = 6,
            endContainer = [1, 0, 0], endOffset = 6\<rparr>]"

text \<open>
  The state after a resolution of \<open>note_gone\<close> on \<open>page_hello\<close> has failed, and the
  state after two resolutions of \<open>note_hello\<close> have failed on the page that is still
  loading.
\<close>

definition gone_scheduled :: state where
  "gone_scheduled = scheduleHighlightRetry note_gone (initial page_hello)"

definition hello_scheduled_twice :: state where
  "hello_scheduled_twice =
     scheduleHighlightRetry note_hello (scheduleHighlightRetry note_hello (initial page_loading))"

text \<open>
  The page was loaded with one note whose text is not there; its retry has fired at
  1000 ms, and 29 seconds have passed.
\<close>

definition watching :: state where
  "watching = run no_xpath [Load (Response [note_gone]), Fire, Advance 29000] (initial page_hello)"

text \<open>
  A page load with one note: the text is not there yet, so the note gets a retry timer
  and the observer is set up; the text arrives, the observer is notified, and its
  debounced pass has run at 500 ms.
\<close>

definition page_load_trace :: state where
  "page_load_trace =
     run no_xpath [Load (Response [note_hello]), Mutate page_hello, Notify, Fire]
       (initial page_loading)"

section \<open>Properties of the tree operations\<close>

lemma node_at_append:
  "node_at d (p @ q) = (case node_at d p of None \<Rightarrow> None | Some n \<Rightarrow> node_at n q)"
proof (induction p arbitrary: d)
  case Nil
  show ?case by simp
next
  case (Cons i p)
  show ?case by (cases d) (simp_all add: Cons.IH)
qed

lemma node_at_modify_prefix:
  "node_at d q = Some n \<Longrightarrow> node_at (modify_at (q @ r) f d) q = Some (modify_at r f n)"
proof (induction q arbitrary: d)
  case Nil
  then show ?case by simp
next
  case (Cons i q)
  then show ?case by (cases d) (auto split: if_splits)
qed

lemma concat_map_update:
  "i < length cs \<Longrightarrow> g x = g (cs ! i) \<Longrightarrow> concat (map g (cs[i := x])) = concat (map g cs)"
proof -
  assume i: "i < length cs" and g: "g x = g (cs ! i)"
  have "(map g cs)[i := (map g cs) ! i] = map g cs" by (rule list_update_id)
  then have "(map g cs)[i := g (cs ! i)] = map g cs" using i by simp
  then show ?thesis using g by (simp add: map_update)
qed

lemma textContent_modify:
  "node_at d q = Some n \<Longrightarrow> textContent (f n) = textContent n \<Longrightarrow>
   textContent (modify_at q f d) = textContent d"
proof (induction q arbitrary: d)
  case Nil
  then show ?case by simp
next
  case (Cons i q)
  show ?case
  proof (cases d)
    case (Text s)
    then show ?thesis by simp
  next
    case (Elem t a h cs)
    with Cons.prems have lt: "i < length cs" and at: "node_at (cs ! i) q = Some n"
      by (auto split: if_splits)
    have "textContent (modify_at q f (cs ! i)) = textContent (cs ! i)"
      using Cons.IH [OF at Cons.prems(2)] .
    then show ?thesis using Elem lt by (simp add: concat_map_update)
  qed
qed

lemma modify_modify:
  "modify_at q g (modify_at q f d) = modify_at q (\<lambda>n. g (f n)) d"
proof (induction q arbitrary: d)
  case Nil
  show ?case by simp
next
  case (Cons i q)
  show ?case by (cases d) (simp_all add: Cons.IH)
qed

lemma textContent_replace_child:
  "k < length cs \<Longrightarrow> concat (map textContent ns) = textContent (cs ! k) \<Longrightarrow>
   textContent (replace_child k ns (Elem t a h cs)) = textContent (Elem t a h cs)"
proof -
  assume k: "k < length cs" and ns: "concat (map textContent ns) = textContent (cs ! k)"
  have "cs = take k cs @ cs ! k # drop (Suc k) cs" using k by (rule id_take_nth_drop)
  then have "concat (map textContent cs)
      = concat (map textContent (take k cs)) @ textContent (cs ! k)
        @ concat (map textContent (drop (Suc k) cs))"
    by (metis concat.simps(2) concat_append list.simps(9) map_append)
  then show ?thesis using k ns by simp
qed

lemma textContent_normalize:
  "textContent (normalize n) = textContent n"
  "concat (map textContent (normalize_list cs)) = concat (map textContent cs)"
proof (induction n and cs rule: normalize_normalize_list.induct)
  case (4 c cs)
  show ?case
  proof (cases c)
    case (Text s)
    show ?thesis
    proof (cases "s = []")
      case True
      then show ?thesis using Text 4 by simp
    next
      case False
      then have ih: "concat (map textContent (normalize_list cs)) = concat (map textContent cs)"
        using 4(2) Text by simp
      show ?thesis
      proof (cases "normalize_list cs")
        case Nil
        then show ?thesis using Text False ih by simp
      next
        case (Cons x r)
        then show ?thesis using Text False ih by (cases x) auto
      qed
    qed
  next
    case (Elem t a h cs')
    then show ?thesis using 4 by simp
  qed
qed simp_all

lemma indexOf_take:
  "indexOf s t = Some i \<Longrightarrow> take (length t) (drop i s) = t \<and> i + length t \<le> length s"
proof (induction s arbitrary: i)
  case Nil
  then show ?case by (simp split: if_splits)
next
  case (Cons c s)
  show ?case
  proof (cases "startsWith (c # s) t")
    case True
    then have i0: "i = 0" using Cons.prems by simp
    from True have tk: "take (length t) (c # s) = t" by (simp add: startsWith_def)
    have "length (take (length t) (c # s)) = length t"
      using arg_cong [OF tk, of length] .
    then have "length t \<le> length (c # s)" by simp
    then show ?thesis using i0 tk by simp
  next
    case False
    then obtain j where j: "indexOf s t = Some j" and ij: "i = Suc j"
      using Cons.prems by auto
    from Cons.IH [OF j] show ?thesis using ij by simp
  qed
qed

lemma indexOf_split:
  assumes "indexOf s t = Some i"
  shows "take i s @ t @ drop (i + length t) s = s"
proof -
  from indexOf_take [OF assms] have mid: "take (length t) (drop i s) = t" by simp
  have "take i s @ (take (length t) (drop i s) @ drop (length t) (drop i s)) = s"
    by (simp only: append_take_drop_id)
  then show ?thesis by (simp only: mid drop_drop add.commute)
qed

text \<open>\<open>includes\<close> is the relation of containing a string verbatim.\<close>

lemma indexOf_found: "indexOf (pre @ t @ post) t \<noteq> None"
proof (induction pre)
  case Nil
  have sw: "startsWith (t @ post) t" by (simp add: startsWith_def)
  show ?case
  proof (cases "t @ post")
    case Nil
    then show ?thesis by simp
  next
    case (Cons a list)
    with sw have "startsWith (a # list) t" by simp
    then show ?thesis using Cons by simp
  qed
next
  case (Cons c pre)
  then show ?case by auto
qed

lemma includesStr_iff: "includesStr s t \<longleftrightarrow> (\<exists>pre post. s = pre @ t @ post)"
proof
  assume "includesStr s t"
  then obtain i where "indexOf s t = Some i" by (auto simp: includesStr_def)
  from indexOf_split [OF this] have "s = take i s @ t @ drop (i + length t) s" by simp
  then show "\<exists>pre post. s = pre @ t @ post" by blast
next
  assume "\<exists>pre post. s = pre @ t @ post"
  then show "includesStr s t" using indexOf_found by (auto simp: includesStr_def)
qed

lemma leaves_of_sound:
  "(p, s, pt', ph') \<in> set (leaves_of pt ph i cs) \<Longrightarrow>
     \<exists>j q. p = (i + j) # q \<and> j < length cs \<and>
       (if q = [] then cs ! j = Text s \<and> pt' = pt \<and> ph' = ph
        else \<exists>a' cs'. node_at (cs ! j) (butlast q) = Some (Elem pt' a' ph' cs')
               \<and> last q < length cs' \<and> cs' ! last q = Text s)"
proof (induction pt ph i cs arbitrary: p rule: leaves_of.induct)
  case (1 pt ph i)
  then show ?case by simp
next
  case (2 pt ph i s0 cs)
  from "2.prems" consider (here) "p = [i]" "s = s0" "pt' = pt" "ph' = ph"
    | (rest) "(p, s, pt', ph') \<in> set (leaves_of pt ph (Suc i) cs)"
    by auto
  then show ?case
  proof cases
    case here
    then have "p = (i + 0) # [] \<and> 0 < length (Text s0 # cs) \<and> (Text s0 # cs) ! 0 = Text s \<and> pt' = pt \<and> ph' = ph"
      by simp
    then show ?thesis by (metis (full_types))
  next
    case rest
    from "2.IH" [OF rest] obtain j q where
      jq: "p = (Suc i + j) # q" "j < length cs"
          "if q = [] then cs ! j = Text s \<and> pt' = pt \<and> ph' = ph
           else \<exists>a' cs'. node_at (cs ! j) (butlast q) = Some (Elem pt' a' ph' cs')
                  \<and> last q < length cs' \<and> cs' ! last q = Text s"
      by blast
    have "p = (i + Suc j) # q" "Suc j < length (Text s0 # cs)" "(Text s0 # cs) ! Suc j = cs ! j"
      using jq by simp_all
    then show ?thesis using jq(3) by metis
  qed
next
  case (3 pt ph i t a h cs' cs)
  from "3.prems" consider (inside) p0 where "p = i # p0" "(p0, s, pt', ph') \<in> set (leaves_of t h 0 cs')"
    | (rest) "(p, s, pt', ph') \<in> set (leaves_of pt ph (Suc i) cs)"
    by auto
  then show ?case
  proof cases
    case inside
    from "3.IH"(1) [OF inside(2)] obtain j0 q0 where
      jq: "p0 = (0 + j0) # q0" "j0 < length cs'"
          "if q0 = [] then cs' ! j0 = Text s \<and> pt' = t \<and> ph' = h
           else \<exists>a' cs''. node_at (cs' ! j0) (butlast q0) = Some (Elem pt' a' ph' cs'')
                  \<and> last q0 < length cs'' \<and> cs'' ! last q0 = Text s"
      by blast
    have par: "\<exists>a' cs''. node_at (Elem t a h cs') (butlast p0) = Some (Elem pt' a' ph' cs'')
                  \<and> last p0 < length cs'' \<and> cs'' ! last p0 = Text s"
    proof (cases "q0 = []")
      case True
      then show ?thesis using jq by simp
    next
      case False
      then show ?thesis using jq by simp
    qed
    have "p = (i + 0) # p0" "0 < length (Elem t a h cs' # cs)" "p0 \<noteq> []"
         "(Elem t a h cs' # cs) ! 0 = Elem t a h cs'"
      using inside(1) jq(1) by simp_all
    then show ?thesis using par by (metis (no_types, lifting))
  next
    case rest
    from "3.IH"(2) [OF rest] obtain j q where
      jq: "p = (Suc i + j) # q" "j < length cs"
          "if q = [] then cs ! j = Text s \<and> pt' = pt \<and> ph' = ph
           else \<exists>a' cs'. node_at (cs ! j) (butlast q) = Some (Elem pt' a' ph' cs')
                  \<and> last q < length cs' \<and> cs' ! last q = Text s"
      by blast
    have "p = (i + Suc j) # q" "Suc j < length (Elem t a h cs' # cs)"
         "(Elem t a h cs' # cs) ! Suc j = cs ! j"
      using jq by simp_all
    then show ?thesis using jq(3) by metis
  qed
qed

lemma walker_parent:
  assumes "(p, s, pt', ph') \<in> set (walker_nodes n)"
  shows "p \<noteq> [] \<and> (\<exists>a' cs'. node_at n (butlast p) = Some (Elem pt' a' ph' cs')
                         \<and> last p < length cs' \<and> cs' ! last p = Text s)"
proof (cases n)
  case (Text s0)
  then show ?thesis using assms by simp
next
  case (Elem t a h cs)
  with assms have "(p, s, pt', ph') \<in> set (leaves_of t h 0 cs)" by simp
  from leaves_of_sound [OF this] obtain j q where
    jq: "p = (0 + j) # q" "j < length cs"
        "if q = [] then cs ! j = Text s \<and> pt' = t \<and> ph' = h
         else \<exists>a' cs'. node_at (cs ! j) (butlast q) = Some (Elem pt' a' ph' cs')
                \<and> last q < length cs' \<and> cs' ! last q = Text s"
    by blast
  show ?thesis
  proof (cases "q = []")
    case True
    then show ?thesis using jq Elem by simp
  next
    case False
    then show ?thesis using jq Elem by simp
  qed
qed

lemma leaves_of_complete:
  "k < length cs \<Longrightarrow> cs ! k = Text s \<Longrightarrow> ([i + k], s, pt, ph) \<in> set (leaves_of pt ph i cs)"
proof (induction pt ph i cs arbitrary: k rule: leaves_of.induct)
  case (1 pt ph i)
  then show ?case by simp
next
  case (2 pt ph i s0 cs)
  show ?case
  proof (cases k)
    case 0
    then show ?thesis using "2.prems" by simp
  next
    case (Suc k')
    then have "([Suc i + k'], s, pt, ph) \<in> set (leaves_of pt ph (Suc i) cs)"
      using "2.prems" "2.IH" [of k'] by simp
    then show ?thesis using Suc by simp
  qed
next
  case (3 pt ph i t a h cs' cs)
  show ?case
  proof (cases k)
    case 0
    then show ?thesis using "3.prems" by simp
  next
    case (Suc k')
    then have "([Suc i + k'], s, pt, ph) \<in> set (leaves_of pt ph (Suc i) cs)"
      using "3.prems" "3.IH"(2) [of k'] by simp
    then show ?thesis using Suc by simp
  qed
qed

lemma tryApply_None_same:
  "tryApplyHighlight d e nd = (None, d') \<Longrightarrow> d' = d"
  by (auto simp: tryApplyHighlight_def extractAndInsert_def split: option.splits prod.splits)

lemma tryApply_found:
  assumes n: "node_at d e = Some n"
    and f: "find (hasText (noteText nd)) (walker_nodes n) = Some (p, s, pt, ph)"
  shows "\<exists>a cs i. node_at d (e @ butlast p) = Some (Elem pt a ph cs)
           \<and> last p < length cs \<and> cs ! last p = Text s
           \<and> indexOf s (noteText nd) = Some i
           \<and> tryApplyHighlight d e nd =
               (Some (e @ butlast p @ [Suc (last p)]),
                modify_at (e @ butlast p)
                  (wrap_text (last p) i (i + length (noteText nd)) (noteId nd) (highlightColor nd)) d)"
proof -
  from f have mem: "(p, s, pt, ph) \<in> set (walker_nodes n)" and ht: "hasText (noteText nd) (p, s, pt, ph)"
    by (auto simp: find_Some_iff in_set_conv_nth)
  from walker_parent [OF mem] obtain a cs where
    p: "p \<noteq> []" and par: "node_at n (butlast p) = Some (Elem pt a ph cs)"
    and k: "last p < length cs" and ck: "cs ! last p = Text s"
    by blast
  from ht obtain i where i: "indexOf s (noteText nd) = Some i"
    by (auto simp: hasText_def)
  from indexOf_take [OF i] have le: "i + length (noteText nd) \<le> length s" by simp
  have par_d: "node_at d (e @ butlast p) = Some (Elem pt a ph cs)"
    using n par by (simp add: node_at_append)
  have "node_at d ((e @ butlast p) @ [last p]) = Some (Text s)"
    using par_d k ck by (simp add: node_at_append del: append_assoc)
  then have leaf: "node_at d (e @ p) = Some (Text s)" using p by simp
  have bl: "butlast (e @ p) = e @ butlast p" "last (e @ p) = last p" "e @ p \<noteq> []"
    using p by (simp_all add: butlast_append)
  have "surroundContents d (e @ p) i (i + length (noteText nd)) (noteId nd) (highlightColor nd)
      = Some (modify_at (e @ butlast p)
                (wrap_text (last p) i (i + length (noteText nd)) (noteId nd) (highlightColor nd)) d)"
    using leaf le bl by (simp add: surroundContents_def)
  then have "tryApplyHighlight d e nd =
               (Some (e @ butlast p @ [Suc (last p)]),
                modify_at (e @ butlast p)
                  (wrap_text (last p) i (i + length (noteText nd)) (noteId nd) (highlightColor nd)) d)"
    using n f i by (simp add: tryApplyHighlight_def)
  then show ?thesis using par_d k ck i by blast
qed

lemma tryApply_Some:
  assumes "tryApplyHighlight d e nd = (Some m, d')"
  shows "\<exists>r k pt a ph cs s i.
           node_at d (e @ r) = Some (Elem pt a ph cs) \<and> k < length cs \<and> cs ! k = Text s
         \<and> indexOf s (noteText nd) = Some i
         \<and> m = e @ r @ [Suc k]
         \<and> d' = modify_at (e @ r)
                  (wrap_text k i (i + length (noteText nd)) (noteId nd) (highlightColor nd)) d"
proof -
  from assms obtain n where n: "node_at d e = Some n"
    by (auto simp: tryApplyHighlight_def split: option.splits)
  from assms n obtain p s pt ph where
    f: "find (hasText (noteText nd)) (walker_nodes n) = Some (p, s, pt, ph)"
    by (auto simp: tryApplyHighlight_def split: option.splits)
  from tryApply_found [OF n f] obtain a cs i where
    par: "node_at d (e @ butlast p) = Some (Elem pt a ph cs)"
    and k: "last p < length cs" and ck: "cs ! last p = Text s"
    and i: "indexOf s (noteText nd) = Some i"
    and res: "tryApplyHighlight d e nd =
               (Some (e @ butlast p @ [Suc (last p)]),
                modify_at (e @ butlast p)
                  (wrap_text (last p) i (i + length (noteText nd)) (noteId nd) (highlightColor nd)) d)"
    by blast
  from res assms have "m = e @ butlast p @ [Suc (last p)]"
    and "d' = modify_at (e @ butlast p)
                  (wrap_text (last p) i (i + length (noteText nd)) (noteId nd) (highlightColor nd)) d"
    by simp_all
  with par k ck i show ?thesis by blast
qed

lemma find_gives_container:
  assumes "findElementContainingText d text = Inr (Some e)"
  shows "\<exists>n. node_at d e = Some n \<and> find (hasText text) (walker_nodes n) \<noteq> None"
proof -
  from assms obtain b body p s pt ph where
    b: "document_body d = Some b" and body: "node_at d [b] = Some body"
    and f: "find (acceptNode text) (walker_nodes body) = Some (p, s, pt, ph)"
    and e: "e = b # butlast p"
    by (auto simp: findElementContainingText_def split: if_splits option.splits)
  from f have mem: "(p, s, pt, ph) \<in> set (walker_nodes body)" and acc: "acceptNode text (p, s, pt, ph)"
    by (auto simp: find_Some_iff in_set_conv_nth)
  from walker_parent [OF mem] obtain a cs where
    par: "node_at body (butlast p) = Some (Elem pt a ph cs)"
    and k: "last p < length cs" and ck: "cs ! last p = Text s"
    by blast
  have "node_at d ([b] @ butlast p) = Some (Elem pt a ph cs)"
    using body par by (simp only: node_at_append option.case)
  then have at: "node_at d e = Some (Elem pt a ph cs)" using e by simp
  have "([0 + last p], s, pt, ph) \<in> set (leaves_of pt ph 0 cs)"
    using k ck by (rule leaves_of_complete)
  moreover have "hasText text ([0 + last p], s, pt, ph)"
    using acc by (simp add: acceptNode_def hasText_def includesStr_def)
  ultimately have "\<exists>l \<in> set (leaves_of pt ph 0 cs). hasText text l" by blast
  then have "find (hasText text) (leaves_of pt ph 0 cs) \<noteq> None"
    by (metis find_None_iff)
  then have "find (hasText text) (walker_nodes (Elem pt a ph cs)) \<noteq> None"
    by simp
  then show ?thesis using at by simp
qed

lemma find_then_apply:
  assumes "findElementContainingText d (noteText nd) = Inr (Some e)"
  shows "\<exists>m d'. tryApplyHighlight d e nd = (Some m, d')"
proof -
  from find_gives_container [OF assms] obtain n p s pt ph where
    n: "node_at d e = Some n" and f: "find (hasText (noteText nd)) (walker_nodes n) = Some (p, s, pt, ph)"
    by auto
  from tryApply_found [OF n f] show ?thesis by blast
qed


lemma query_list_None:
  "query_list v i cs = None \<longleftrightarrow> (\<forall>c \<in> set cs. query_node v c = None)"
  by (induction cs arbitrary: i) (auto split: option.splits)

lemma query_list_append:
  "query_list v i (xs @ ys) =
     (case query_list v i xs of Some p \<Rightarrow> Some p | None \<Rightarrow> query_list v (i + length xs) ys)"
  by (induction xs arbitrary: i) (auto split: option.splits)

lemma query_below_None:
  "query_node v d = None \<Longrightarrow> node_at d q = Some n \<Longrightarrow> query_node v n = None"
proof (induction q arbitrary: d)
  case Nil
  then show ?case by simp
next
  case (Cons i q)
  show ?case
  proof (cases d)
    case (Text s)
    then show ?thesis using Cons.prems by simp
  next
    case (Elem t a h cs)
    with Cons.prems have lt: "i < length cs" and at: "node_at (cs ! i) q = Some n"
      and all: "\<forall>c \<in> set cs. query_node v c = None"
      by (auto simp: query_list_None split: if_splits)
    from all lt have "query_node v (cs ! i) = None" by simp
    from Cons.IH [OF this at] show ?thesis .
  qed
qed

lemma query_list_update:
  assumes "\<forall>c \<in> set cs. query_node v c = None" and "i < length cs"
  shows "query_list v j (cs[i := x]) = map_option (\<lambda>r. (j + i) # r) (query_node v x)"
proof -
  have upd: "cs[i := x] = take i cs @ x # drop (Suc i) cs"
    using assms(2) by (rule upd_conv_take_nth_drop)
  have t: "query_list v j (take i cs) = None"
    using assms(1) by (auto simp: query_list_None dest: in_set_takeD)
  have d: "query_list v (Suc (j + i)) (drop (Suc i) cs) = None"
    using assms(1) by (auto simp: query_list_None dest: in_set_dropD)
  show ?thesis
    using assms(2) t d by (simp add: upd query_list_append min_def split: option.splits)
qed

lemma query_modify:
  "query_node v d = None \<Longrightarrow> node_at d q = Some n \<Longrightarrow>
   query_node v (modify_at q f d) = map_option (\<lambda>r. q @ r) (query_node v (f n))"
proof (induction q arbitrary: d)
  case Nil
  then show ?case by (simp add: option.map_ident)
next
  case (Cons i q)
  show ?case
  proof (cases d)
    case (Text s)
    then show ?thesis using Cons.prems by simp
  next
    case (Elem t a h cs)
    with Cons.prems have lt: "i < length cs" and at: "node_at (cs ! i) q = Some n"
      and attr: "map_of a ''data-note-id'' \<noteq> Some v"
      and all: "\<forall>c \<in> set cs. query_node v c = None"
      by (auto simp: query_list_None split: if_splits)
    from all lt have "query_node v (cs ! i) = None" by simp
    from Cons.IH [OF this at]
    have ih: "query_node v (modify_at q f (cs ! i)) = map_option (\<lambda>r. q @ r) (query_node v (f n))" .
    have "query_list v 0 (cs[i := modify_at q f (cs ! i)])
        = map_option (\<lambda>r. (0 + i) # r) (query_node v (modify_at q f (cs ! i)))"
      using all lt by (rule query_list_update)
    then show ?thesis using Elem lt attr ih
      by (simp add: option.map_comp comp_def)
  qed
qed

lemma query_normalize:
  "query_node v n = None \<Longrightarrow> query_node v (normalize n) = None"
  "(\<forall>c \<in> set cs. query_node v c = None) \<Longrightarrow> (\<forall>c \<in> set (normalize_list cs). query_node v c = None)"
proof (induction n and cs rule: normalize_normalize_list.induct)
  case (1 s)
  then show ?case by simp
next
  case (2 t a h cs)
  from "2.prems" have attr: "map_of a ''data-note-id'' \<noteq> Some v"
    and all: "\<forall>c \<in> set cs. query_node v c = None"
    by (simp_all add: query_list_None split: if_splits)
  from "2.IH" [OF all] have "query_list v 0 (normalize_list cs) = None"
    by (simp only: query_list_None)
  then show ?case using attr by simp
next
  case 3
  then show ?case by simp
next
  case (4 c cs)
  from "4.prems" have c: "query_node v c = None" and all: "\<forall>x \<in> set cs. query_node v x = None"
    by simp_all
  show ?case
  proof (cases c)
    case (Text s)
    show ?thesis
    proof (cases "s = []")
      case True
      from "4.IH"(1) [OF Text True all] show ?thesis using Text True by simp
    next
      case False
      from "4.IH"(2) [OF Text False all]
      have ih: "\<forall>x \<in> set (normalize_list cs). query_node v x = None" .
      show ?thesis
      proof (cases "normalize_list cs")
        case Nil
        then show ?thesis using Text False by simp
      next
        case (Cons x r)
        with ih have r: "\<forall>y \<in> set r. query_node v y = None" and x: "query_node v x = None"
          by simp_all
        show ?thesis
        proof (cases x)
          case (Text s')
          then show ?thesis using \<open>c = Text s\<close> False Cons r by simp
        next
          case (Elem t a h cs')
          then show ?thesis using \<open>c = Text s\<close> False Cons r x by simp
        qed
      qed
    qed
  next
    case (Elem t a h cs')
    from "4.IH"(3) [OF Elem] c have n: "query_node v (normalize c) = None" by simp
    from "4.IH"(4) [OF Elem all] have "\<forall>x \<in> set (normalize_list cs). query_node v x = None" .
    then show ?thesis using Elem n by simp
  qed
qed

text \<open>The parent of the wrapped text node, after the wrap.\<close>

lemma query_wrapped_parent:
  assumes none: "query_node v (Elem pt a ph cs) = None"
    and k: "k < length cs" and ck: "cs ! k = Text s"
  shows "query_node v (wrap_text k so eo v color (Elem pt a ph cs)) = Some [Suc k]"
proof -
  from none have attr: "map_of a ''data-note-id'' \<noteq> Some v"
    and all: "\<forall>c \<in> set cs. query_node v c = None"
    by (auto simp: query_list_None split: if_splits)
  have t: "query_list v 0 (take k cs) = None"
    using all by (auto simp: query_list_None dest: in_set_takeD)
  show ?thesis
    using k ck attr t
    by (simp add: query_list_append createHighlightSpan_def min_def)
qed

lemma query_after_apply:
  assumes "tryApplyHighlight d e nd = (Some m, d')" and "querySelector d (noteId nd) = None"
  shows "querySelector d' (noteId nd) = Some m"
proof -
  from tryApply_Some [OF assms(1)] obtain r k pt a ph cs s i where
    par: "node_at d (e @ r) = Some (Elem pt a ph cs)" and k: "k < length cs"
    and ck: "cs ! k = Text s" and m: "m = e @ r @ [Suc k]"
    and d': "d' = modify_at (e @ r)
                  (wrap_text k i (i + length (noteText nd)) (noteId nd) (highlightColor nd)) d"
    by blast
  from assms(2) have none: "query_node (noteId nd) d = None" by (simp add: querySelector_def)
  have pn: "query_node (noteId nd) (Elem pt a ph cs) = None"
    using none par by (rule query_below_None)
  have "query_node (noteId nd) d' = map_option (\<lambda>x. (e @ r) @ x)
          (query_node (noteId nd)
             (wrap_text k i (i + length (noteText nd)) (noteId nd) (highlightColor nd) (Elem pt a ph cs)))"
    unfolding d' using none par by (rule query_modify)
  then show ?thesis using query_wrapped_parent [OF pn k ck] m
    by (simp add: querySelector_def)
qed

text \<open>The encoding of the paragraph, of the body and of the root of a page.\<close>

lemma getXPath_examples:
  "getXPath True page_hello [1, 0] = Inr ''/html/body/p[1]''"
  "getXPath True page_two [1, 1] = Inr ''/html/body/p[2]''"
  "getXPath True page_hello [1] = Inr ''/html/body''"
  "getXPath True page_hello [] = Inr ''/html''"
  by code_simp+

section \<open>Properties of the content script\<close>

lemma find_short: "length text < 3 \<Longrightarrow> findElementContainingText d text = Inr None"
  by (simp add: findElementContainingText_def)

text \<open>
  C7. A text of fewer than three code units (the empty text too) is never found by the
  search of the document, whatever the tree. So the retry closure, which only searches,
  does nothing for it, and \<open>applyHighlightFromData\<close> can give it a container only by
  decoding its structural path (after the look-up of an existing marker).
\<close>

theorem text_search_min_length:
  assumes "length (noteText nd) < 3"
  shows "findElementContainingText d (noteText nd) = Inr None
       \<and> retryDelayed nd st = st
       \<and> applyHighlightFromData ev nd st =
           (case querySelector (doc st) (noteId nd) of
              Some existing \<Rightarrow> Inr (Some existing, st)
            | None \<Rightarrow>
                (case getElementByXPath ev (doc st) (elementPath nd) of
                   Some element \<Rightarrow> Inr (applyIn element nd st)
                 | None \<Rightarrow> Inr (None, scheduleHighlightRetry nd st)))"
  using assms
  by (simp add: find_short retryDelayed_def applyHighlightFromData_def split: option.splits)

text \<open>
  C7, at an input: the text \<open>lo\<close> occurs in the visible paragraph of the page, and the
  search does not find it.
\<close>

theorem text_search_min_length_witness:
  "length (noteText note_short) < 3
   \<and> textContent page_hello = ''say hello world now''
   \<and> findElementContainingText page_hello (noteText note_short) = Inr None
   \<and> retryDelayed note_short (initial page_hello) = initial page_hello"
  using text_search_min_length [of note_short page_hello "initial page_hello" no_xpath]
  by (simp add: note_short_def page_hello_def)

text \<open>
  C9, as stated, fails: the test for an identifier comes first (line 28), so a detached
  element that has one is encoded by the identifier and not by the empty string.
\<close>

theorem getXPath_detached_id_counterexample:
  "getXPath False (Elem ''DIV'' [(''id'', ''x'')] (False, False) []) []
     = Inr (''//*[@id='' @ [CHR 0x22] @ ''x'' @ [CHR 0x22] @ '']'')
   \<and> getXPath False (Elem ''DIV'' [(''id'', ''x'')] (False, False) []) [] \<noteq> Inr []"
  by (simp add: getXPath_def elem_id_def)

text \<open>
  C9, amended: for every detached node (no parent, not the root of the page) that has
  no identifier (a text node, or an element without a non-empty \<open>id\<close>),
  \<open>getXPath\<close> returns the empty string.
\<close>

theorem getXPath_detached:
  "(case n of Text s \<Rightarrow> True | Elem t a h cs \<Rightarrow> elem_id a = []) \<Longrightarrow>
     getXPath False n [] = Inr []"
  by (cases n) (simp_all add: getXPath_def)

text \<open>C9, amended, at an input: a detached \<open>div\<close> with a class and no identifier.\<close>

theorem getXPath_detached_witness:
  "elem_id [(''class'', ''note'')] = []
   \<and> getXPath False (Elem ''DIV'' [(''class'', ''note'')] (False, False) [Text ''hello'']) [] = Inr []"
  using getXPath_detached [of "Elem ''DIV'' [(''class'', ''note'')] (False, False) [Text ''hello'']"]
  by (simp add: elem_id_def)

text \<open>
  C10. When there is no selection, or it has no range, or it is collapsed, or its range
  starts and ends in different nodes, \<open>applyHighlightToSelection\<close> returns \<open>false\<close>
  and leaves the document as it is: no span is inserted, and of the whole state at most
  the selection is cleared.
\<close>

theorem selection_highlight_atomic:
  assumes "selection st = None
         \<or> (\<exists>rs. selection st = Some rs
               \<and> (rs = [] \<or> isCollapsed rs \<or> startContainer (hd rs) \<noteq> endContainer (hd rs)))"
  shows "fst (applyHighlightToSelection nid color st) = False
       \<and> doc (snd (applyHighlightToSelection nid color st)) = doc st
       \<and> (snd (applyHighlightToSelection nid color st) = st
          \<or> snd (applyHighlightToSelection nid color st) = st\<lparr>selection := Some []\<rparr>)"
  using assms
  by (auto simp: applyHighlightToSelection_def split: option.splits list.splits)

text \<open>
  C10, at two inputs: a selection from the first paragraph of a page into the second,
  and a collapsed one.
\<close>

theorem selection_highlight_atomic_witness:
  "selection ((initial page_two)\<lparr>selection := cross_selection\<rparr>) = cross_selection
   \<and> startContainer (hd (the cross_selection)) \<noteq> endContainer (hd (the cross_selection))
   \<and> fst (applyHighlightToSelection (noteId note_hello) None
            ((initial page_two)\<lparr>selection := cross_selection\<rparr>)) = False
   \<and> doc (snd (applyHighlightToSelection (noteId note_hello) None
            ((initial page_two)\<lparr>selection := cross_selection\<rparr>))) = page_two
   \<and> isCollapsed (the collapsed_selection)
   \<and> fst (applyHighlightToSelection (noteId note_hello) None
            ((initial page_two)\<lparr>selection := collapsed_selection\<rparr>)) = False
   \<and> doc (snd (applyHighlightToSelection (noteId note_hello) None
            ((initial page_two)\<lparr>selection := collapsed_selection\<rparr>))) = page_two"
  using selection_highlight_atomic
          [of "(initial page_two)\<lparr>selection := cross_selection\<rparr>" "noteId note_hello" None]
        selection_highlight_atomic
          [of "(initial page_two)\<lparr>selection := collapsed_selection\<rparr>" "noteId note_hello" None]
  by (simp add: cross_selection_def collapsed_selection_def isCollapsed_def initial_def)









lemma applyIn_frame:
  "applyIn e nd st = (r, st') \<Longrightarrow>
     timers st' = timers st \<and> pendingHighlights st' = pendingHighlights st
   \<and> highlightObserver st' = highlightObserver st \<and> now st' = now st \<and> nextTimer st' = nextTimer st
   \<and> retry st' = retry st \<and> extensionContextValid st' = extensionContextValid st"
  by (auto simp: applyIn_def split: prod.splits)

lemma applyIn_None_doc: "applyIn e nd st = (None, st') \<Longrightarrow> doc st' = doc st"
  by (auto simp: applyIn_def split: prod.splits dest: tryApply_None_same)

lemma find_then_applyIn:
  assumes "findElementContainingText (doc st) (noteText nd) = Inr (Some e)"
  shows "\<exists>m st'. applyIn e nd st = (Some m, st')"
  using find_then_apply [OF assms] by (auto simp: applyIn_def)

text \<open>\<open>document.body\<close> is an element, a \<open>body\<close> or a \<open>frameset\<close>.\<close>

lemma first_body_node:
  "first_body i cs = Some b \<Longrightarrow>
     i \<le> b \<and> b - i < length cs
     \<and> (\<exists>t a h cs'. cs ! (b - i) = Elem t a h cs' \<and> (t = ''BODY'' \<or> t = ''FRAMESET''))"
proof (induction i cs rule: first_body.induct)
  case (1 i)
  then show ?case by simp
next
  case (2 i s cs)
  then have "first_body (Suc i) cs = Some b" by simp
  from "2.IH" [OF this] show ?case by (auto simp: Suc_diff_le)
next
  case (3 i t a h cs' cs)
  show ?case
  proof (cases "t = ''BODY'' \<or> t = ''FRAMESET''")
    case True
    with "3.prems" have "b = i" by auto
    then show ?thesis using True by simp
  next
    case False
    with "3.prems" have "first_body (Suc i) cs = Some b" by simp
    from "3.IH" [OF False this] show ?thesis by (auto simp: Suc_diff_le)
  qed
qed

lemma body_node:
  assumes "document_body d = Some b"
  shows "\<exists>t a h cs. node_at d [b] = Some (Elem t a h cs) \<and> (t = ''BODY'' \<or> t = ''FRAMESET'')"
proof (cases d)
  case (Text s)
  with assms show ?thesis by simp
next
  case (Elem t0 a0 h0 cs0)
  with assms have "first_body 0 cs0 = Some b" by (simp split: if_splits)
  from first_body_node [OF this] show ?thesis using Elem by auto
qed

text \<open>What a failed resolution leaves of the state.\<close>

lemma apply_failed_frame:
  assumes "applyHighlightFromData ev nd st = Inr (None, st')"
  shows "doc st' = doc st \<and> pendingHighlights st' = pendingHighlights st
       \<and> highlightObserver st' = highlightObserver st \<and> now st' = now st
       \<and> timers st' =
           (if getElementByXPath ev (doc st) (elementPath nd) = None
               \<and> (case retry st (noteId nd) of None \<Rightarrow> 0 | Some c \<Rightarrow> c) < 3
            then timers st @
                   [(nextTimer st,
                     now st + 1000 * ((case retry st (noteId nd) of None \<Rightarrow> 0 | Some c \<Rightarrow> c) + 1),
                     RetryCb nd)]
            else timers st)"
proof -
  from assms have q: "querySelector (doc st) (noteId nd) = None"
    by (auto simp: applyHighlightFromData_def split: option.splits)
  show ?thesis
  proof (cases "getElementByXPath ev (doc st) (elementPath nd)")
    case (Some e)
    with assms q have a: "applyIn e nd st = (None, st')"
      by (simp add: applyHighlightFromData_def)
    from applyIn_frame [OF a] applyIn_None_doc [OF a] show ?thesis using Some by simp
  next
    case None
    show ?thesis
    proof (cases "findElementContainingText (doc st) (noteText nd)")
      case (Inl err)
      with assms q None show ?thesis by (simp add: applyHighlightFromData_def)
    next
      case (Inr found)
      show ?thesis
      proof (cases found)
        case None': None
        with assms q None Inr have "st' = scheduleHighlightRetry nd st"
          by (simp add: applyHighlightFromData_def)
        then show ?thesis using None
          by (simp add: scheduleHighlightRetry_def setTimeout_def Let_def)
      next
        case (Some e)
        with Inr obtain m st'' where "applyIn e nd st = (Some m, st'')"
          using find_then_applyIn by blast
        with assms q None Inr Some show ?thesis by (simp add: applyHighlightFromData_def)
      qed
    qed
  qed
qed

text \<open>
  C6, amended: let the resolution started by \<open>restoreNoteContext\<close> return no marker,
  on a document that has a body once an older toast is taken out (and whose root is no
  such toast). Then the notice is shown: the toast with the message that the text could
  not be located is the last child of the body, and its timer is set. The note is not
  added to \<open>pendingHighlights\<close> nor is an observer set up; but the resolver is the
  shared one, so when the path decoded to nothing (and hence no container was found) and
  fewer than three retries were scheduled for the identifier, one retry timer is added.
\<close>

theorem restore_failure:
  assumes "applyHighlightFromData ev nd st = Inr (None, st')"
    and "getElementById (doc st) ''mozhii-toast'' \<noteq> Some []"
    and "document_body (withoutToast (doc st)) = Some b"
  shows "doc (restoreDelayed ev nd st) =
           modify_at [b] (append_toast could_not_locate_message (nextTimer st'))
             (withoutToast (doc st))
       \<and> (\<exists>t a h cs.
             node_at (doc (restoreDelayed ev nd st)) [b] =
               Some (Elem t a h
                       (cs @ [toast_element could_not_locate_message (nextTimer st') (snd h)]))
             \<and> (t = ''BODY'' \<or> t = ''FRAMESET''))
       \<and> pendingHighlights (restoreDelayed ev nd st) = pendingHighlights st
       \<and> highlightObserver (restoreDelayed ev nd st) = highlightObserver st
       \<and> timers (restoreDelayed ev nd st) =
           (if getElementByXPath ev (doc st) (elementPath nd) = None
               \<and> (case retry st (noteId nd) of None \<Rightarrow> 0 | Some c \<Rightarrow> c) < 3
            then timers st @
                   [(nextTimer st,
                     now st + 1000 * ((case retry st (noteId nd) of None \<Rightarrow> 0 | Some c \<Rightarrow> c) + 1),
                     RetryCb nd)]
            else timers st)
           @ [(nextTimer st', now st + 3000, ToastHideCb (nextTimer st'))]"
proof -
  let ?d1 = "withoutToast (doc st)"
  let ?f = "append_toast could_not_locate_message (nextTimer st')"
  note fr = apply_failed_frame [OF assms(1)]
  have r: "restoreDelayed ev nd st =
             setTimeout (ToastHideCb (nextTimer st')) 3000 (st'\<lparr>doc := modify_at [b] ?f ?d1\<rparr>)"
    using assms fr by (simp add: restoreDelayed_def showToast_def appendToast_def)
  from body_node [OF assms(3)] obtain t a h cs where
    bn: "node_at ?d1 [b] = Some (Elem t a h cs)" and tag: "t = ''BODY'' \<or> t = ''FRAMESET''"
    by blast
  have "node_at (modify_at ([b] @ []) ?f ?d1) [b] = Some (modify_at [] ?f (Elem t a h cs))"
    using bn by (rule node_at_modify_prefix)
  then have n: "node_at (modify_at [b] ?f ?d1) [b] =
      Some (Elem t a h (cs @ [toast_element could_not_locate_message (nextTimer st') (snd h)]))"
    by simp
  have d: "doc (restoreDelayed ev nd st) = modify_at [b] ?f ?d1"
    by (simp add: r setTimeout_def)
  have e: "\<exists>t a h cs.
             node_at (doc (restoreDelayed ev nd st)) [b] =
               Some (Elem t a h
                       (cs @ [toast_element could_not_locate_message (nextTimer st') (snd h)]))
             \<and> (t = ''BODY'' \<or> t = ''FRAMESET'')"
    unfolding d using n tag by blast
  have p: "pendingHighlights (restoreDelayed ev nd st) = pendingHighlights st"
    and o: "highlightObserver (restoreDelayed ev nd st) = highlightObserver st"
    using fr by (simp_all add: r setTimeout_def)
  have t: "timers (restoreDelayed ev nd st) =
             timers st' @ [(nextTimer st', now st + 3000, ToastHideCb (nextTimer st'))]"
    using fr by (simp add: r setTimeout_def)
  show ?thesis using d e p o t fr by simp
qed

lemma gone_eval:
  "querySelector (doc (initial page_hello)) (noteId note_gone) = None"
  "getElementByXPath no_xpath (doc (initial page_hello)) (elementPath note_gone) = None"
  "findElementContainingText (doc (initial page_hello)) (noteText note_gone) = Inr None"
  by code_simp+

lemma gone_apply:
  "applyHighlightFromData no_xpath note_gone (initial page_hello) = Inr (None, gone_scheduled)"
  by (simp add: applyHighlightFromData_def gone_eval gone_scheduled_def)

lemma gone_toast_eval:
  "getElementById (doc (initial page_hello)) ''mozhii-toast'' = None"
  "withoutToast (doc (initial page_hello)) = page_hello"
  "document_body page_hello = Some 1"
  "nextTimer gone_scheduled = 2"
  "pendingHighlights (initial page_hello) = []"
  "highlightObserver (initial page_hello) = None"
  "timers (initial page_hello) = []"
  "nextTimer (initial page_hello) = 1"
  "now (initial page_hello) = 0"
  "retry (initial page_hello) (noteId note_gone) = None"
  by code_simp+

text \<open>
  C6, amended, at an input: a note whose text is not on the page. The toast is the
  second child of the body, after the paragraph; the retry timer and the timer of the
  toast are set.
\<close>

theorem restore_failure_witness:
  "applyHighlightFromData no_xpath note_gone (initial page_hello) = Inr (None, gone_scheduled)
 \<and> getElementById (doc (initial page_hello)) ''mozhii-toast'' = None
 \<and> document_body (withoutToast (doc (initial page_hello))) = Some 1
 \<and> doc (restoreDelayed no_xpath note_gone (initial page_hello)) =
     Elem ''HTML'' [] (False, False)
       [Elem ''HEAD'' [] (False, False) [],
        Elem ''BODY'' [] (False, False)
          [Elem ''P'' [] (False, False) [Text ''say hello world now''],
           toast_element could_not_locate_message 2 False]]
 \<and> pendingHighlights (restoreDelayed no_xpath note_gone (initial page_hello)) = []
 \<and> highlightObserver (restoreDelayed no_xpath note_gone (initial page_hello)) = None
 \<and> timers (restoreDelayed no_xpath note_gone (initial page_hello))
     = [(1, 1000, RetryCb note_gone), (2, 3000, ToastHideCb 2)]"
proof -
  have root: "getElementById (doc (initial page_hello)) ''mozhii-toast'' \<noteq> Some []"
    by (simp add: gone_toast_eval)
  have body: "document_body (withoutToast (doc (initial page_hello))) = Some 1"
    by (simp add: gone_toast_eval)
  have tree: "modify_at [1] (append_toast could_not_locate_message 2) page_hello =
     Elem ''HTML'' [] (False, False)
       [Elem ''HEAD'' [] (False, False) [],
        Elem ''BODY'' [] (False, False)
          [Elem ''P'' [] (False, False) [Text ''say hello world now''],
           toast_element could_not_locate_message 2 False]]"
    by (simp add: page_hello_def)
  from restore_failure [OF gone_apply root body] gone_apply body tree
  show ?thesis by (simp add: gone_toast_eval gone_eval(2))
qed

lemma no_body_eval:
  "querySelector (doc (initial page_no_body)) (noteId note_short) = None"
  "getElementByXPath no_xpath (doc (initial page_no_body)) (elementPath note_short) = None"
  "findElementContainingText (doc (initial page_no_body)) (noteText note_short) = Inr None"
  "getElementById page_no_body ''mozhii-toast'' = None"
  "document_body page_no_body = None"
  by code_simp+

text \<open>
  C6, as stated, fails. After the message \<open>restoreNote\<close> and the delay of 600 ms, the
  failed resolution has left a retry timer due at 1600 ms beside the timer of the toast.
  And on a document without body a failed resolution shows no notice:
  \<open>showToast\<close> raises, and the document is as it was.
\<close>

theorem restore_enqueues_retry_counterexample:
  "timers (run no_xpath [Message True (RestoreNote note_gone), Fire] (initial page_hello))
     = [(2, 1600, RetryCb note_gone), (3, 3600, ToastHideCb 3)]
 \<and> pendingHighlights (run no_xpath [Message True (RestoreNote note_gone), Fire] (initial page_hello))
     = []
 \<and> applyHighlightFromData no_xpath note_short (initial page_no_body)
     = Inr (None, scheduleHighlightRetry note_short (initial page_no_body))
 \<and> fst (showToast could_not_locate_message 3000
           (scheduleHighlightRetry note_short (initial page_no_body))) = Some TypeError
 \<and> doc (restoreDelayed no_xpath note_short (initial page_no_body)) = page_no_body"
proof -
  have a: "timers (run no_xpath [Message True (RestoreNote note_gone), Fire] (initial page_hello))
     = [(2, 1600, RetryCb note_gone), (3, 3600, ToastHideCb 3)]"
    "pendingHighlights (run no_xpath [Message True (RestoreNote note_gone), Fire] (initial page_hello))
     = []"
    by (simp_all add: step_def onMessage_def restoreNoteContext_def setTimeout_def fire_def
          run_callback_def restoreDelayed_def applyHighlightFromData_def gone_eval
          gone_toast_eval scheduleHighlightRetry_def showToast_def appendToast_def initial_def
          gone_eval [unfolded initial_def, simplified]
          gone_toast_eval [unfolded initial_def, simplified])
  have d: "doc (scheduleHighlightRetry note_short (initial page_no_body)) = page_no_body"
          "doc (initial page_no_body) = page_no_body"
    by (simp_all add: scheduleHighlightRetry_def setTimeout_def initial_def Let_def)
  have b: "applyHighlightFromData no_xpath note_short (initial page_no_body)
     = Inr (None, scheduleHighlightRetry note_short (initial page_no_body))"
    by (simp add: applyHighlightFromData_def no_body_eval)
  have c: "fst (showToast could_not_locate_message 3000
           (scheduleHighlightRetry note_short (initial page_no_body))) = Some TypeError"
    by (simp add: showToast_def appendToast_def withoutToast_def d no_body_eval)
  have e: "doc (restoreDelayed no_xpath note_short (initial page_no_body)) = page_no_body"
    by (simp add: restoreDelayed_def b showToast_def appendToast_def withoutToast_def d no_body_eval)
  show ?thesis using a b c e by blast
qed

text \<open>
  C2 on the code: a note whose text never appears is resolved once, fails and is
  scheduled; its only timer fires at 1000 ms, finds nothing and schedules nothing. No
  timer is left, and the counter stays at 1: the second and third attempts, at 2 s and
  3 s, never happen, and the counter never reaches the ceiling of 3.
\<close>

theorem retry_fires_once:
  "applyHighlightFromData no_xpath note_gone (initial page_hello) = Inr (None, gone_scheduled)
 \<and> timers gone_scheduled = [(1, 1000, RetryCb note_gone)]
 \<and> retry gone_scheduled (noteId note_gone) = Some 1
 \<and> timers (fire no_xpath gone_scheduled) = []
 \<and> retry (fire no_xpath gone_scheduled) (noteId note_gone) = Some 1
 \<and> now (fire no_xpath gone_scheduled) = 1000
 \<and> doc (fire no_xpath gone_scheduled) = page_hello"
proof -
  have "timers gone_scheduled = [(1, 1000, RetryCb note_gone)]"
    "retry gone_scheduled (noteId note_gone) = Some 1"
    "timers (fire no_xpath gone_scheduled) = []"
    "retry (fire no_xpath gone_scheduled) (noteId note_gone) = Some 1"
    "now (fire no_xpath gone_scheduled) = 1000"
    "doc (fire no_xpath gone_scheduled) = page_hello"
    by code_simp+
  then show ?thesis using gone_apply by blast
qed

lemma loading_eval:
  "querySelector page_loading (noteId note_hello) = None"
  "getElementByXPath no_xpath page_loading (elementPath note_hello) = None"
  "findElementContainingText page_loading (noteText note_hello) = Inr None"
  by code_simp+

text \<open>
  Two direct calls of \<open>applyHighlightFromData\<close> do agree: once a call has returned a
  marker, the next call returns that marker and changes nothing.
\<close>

lemma apply_twice_same_marker:
  assumes "applyHighlightFromData ev nd st = Inr (Some m, st')"
  shows "applyHighlightFromData ev nd st' = Inr (Some m, st')"
proof (cases "querySelector (doc st) (noteId nd)")
  case (Some m0)
  with assms show ?thesis by (simp add: applyHighlightFromData_def)
next
  case None
  from assms None obtain e where e: "applyIn e nd st = (Some m, st')"
    by (auto simp: applyHighlightFromData_def split: option.splits sum.splits)
  then obtain d' where t: "tryApplyHighlight (doc st) e nd = (Some m, d')" and st': "st' = st\<lparr>doc := d'\<rparr>"
    by (auto simp: applyIn_def split: prod.splits)
  from query_after_apply [OF t None] have "querySelector (doc st') (noteId nd) = Some m"
    using st' by simp
  then show ?thesis by (simp add: applyHighlightFromData_def)
qed


lemma nth_middle3:
  "(xs @ [a, b, c] @ ys) ! Suc (length xs) = b"
  by (simp add: nth_append)

lemma unwrap_wrap:
  assumes "k < length cs" and "cs ! k = Text s"
  shows "unwrap_child (Suc k) (wrap_text k so eo v color (Elem pt a ph cs)) =
           Elem pt a ph
             (take k cs @ [Text (take so s)]
              @ (if so = eo then [] else [Text (take (eo - so) (drop so s))])
              @ [Text (drop eo s)] @ drop (Suc k) cs)"
proof -
  let ?sp = "createHighlightSpan v color (snd ph)
               (if so = eo then [] else [Text (take (eo - so) (drop so s))])"
  let ?cs1 = "take k cs @ [Text (take so s), ?sp, Text (drop eo s)] @ drop (Suc k) cs"
  have lk: "length (take k cs) = k" using assms(1) by simp
  have w: "wrap_text k so eo v color (Elem pt a ph cs) = Elem pt a ph ?cs1"
    using assms by simp
  have nth: "?cs1 ! Suc k = ?sp" using nth_middle3 [of "take k cs"] lk by simp
  have len: "Suc k < length ?cs1" using lk by simp
  have tk: "take (Suc k) ?cs1 = take k cs @ [Text (take so s)]" using lk by simp
  have dr: "drop (Suc (Suc k)) ?cs1 = Text (drop eo s) # drop (Suc k) cs" using lk by simp
  have "unwrap_child (Suc k) (Elem pt a ph ?cs1) =
          Elem pt a ph (take (Suc k) ?cs1
            @ (if so = eo then [] else [Text (take (eo - so) (drop so s))])
            @ drop (Suc (Suc k)) ?cs1)"
    using len nth by (simp add: createHighlightSpan_def)
  then show ?thesis unfolding w tk dr by simp
qed

text \<open>The pieces of a text node that was split around the text add up to the node.\<close>

lemma pieces_text:
  assumes "indexOf s t = Some i"
  shows "take i s @ concat (map textContent
            (if i = i + length t then [] else [Text (take (i + length t - i) (drop i s))]))
          @ drop (i + length t) s = s"
proof (cases "length t = 0")
  case True
  then show ?thesis by simp
next
  case False
  from indexOf_take [OF assms] have mid: "take (length t) (drop i s) = t" by simp
  have "take i s @ t @ drop (i + length t) s = s" using assms by (rule indexOf_split)
  then show ?thesis using False mid by simp
qed

lemma text_children_split:
  assumes k: "k < length cs" and ck: "cs ! k = Text s"
  shows "concat (map textContent cs)
      = concat (map textContent (take k cs)) @ s @ concat (map textContent (drop (Suc k) cs))"
proof -
  have "cs = take k cs @ cs ! k # drop (Suc k) cs" using k by (rule id_take_nth_drop)
  then have "concat (map textContent cs)
      = concat (map textContent (take k cs @ cs ! k # drop (Suc k) cs))" by simp
  then show ?thesis using ck by simp
qed

lemma text_unwrap_wrap:
  assumes k: "k < length cs" and ck: "cs ! k = Text s" and i: "indexOf s t = Some i"
  shows "textContent (normalize (unwrap_child (Suc k)
            (wrap_text k i (i + length t) v color (Elem pt a ph cs))))
         = textContent (Elem pt a ph cs)"
proof -
  note parts = pieces_text [OF i]
  have "textContent (unwrap_child (Suc k) (wrap_text k i (i + length t) v color (Elem pt a ph cs)))
      = concat (map textContent (take k cs))
        @ (take i s @ concat (map textContent
            (if i = i + length t then [] else [Text (take (i + length t - i) (drop i s))]))
          @ drop (i + length t) s)
        @ concat (map textContent (drop (Suc k) cs))"
    by (simp only: unwrap_wrap [OF k ck]) simp
  also have "\<dots> = concat (map textContent cs)"
    by (simp only: parts text_children_split [OF k ck])
  finally show ?thesis by (simp add: textContent_normalize)
qed

lemma text_wrap:
  assumes k: "k < length cs" and ck: "cs ! k = Text s" and i: "indexOf s t = Some i"
  shows "textContent (wrap_text k i (i + length t) v color (Elem pt a ph cs))
         = textContent (Elem pt a ph cs)"
proof -
  note parts = pieces_text [OF i]
  have "textContent (wrap_text k i (i + length t) v color (Elem pt a ph cs))
      = concat (map textContent (take k cs))
        @ (take i s @ concat (map textContent
            (if i = i + length t then [] else [Text (take (i + length t - i) (drop i s))]))
          @ drop (i + length t) s)
        @ concat (map textContent (drop (Suc k) cs))"
    using k ck by (simp add: createHighlightSpan_def)
  also have "\<dots> = concat (map textContent cs)"
    by (simp only: parts text_children_split [OF k ck])
  finally show ?thesis by simp
qed

lemma query_unwrap_wrap:
  assumes k: "k < length cs" and ck: "cs ! k = Text s"
    and none: "query_node v (Elem pt a ph cs) = None"
  shows "query_node v (normalize (unwrap_child (Suc k)
            (wrap_text k so eo v color (Elem pt a ph cs)))) = None"
proof -
  from none have attr: "map_of a ''data-note-id'' \<noteq> Some v"
    and all: "\<forall>c \<in> set cs. query_node v c = None"
    by (auto simp: query_list_None split: if_splits)
  have "\<forall>c \<in> set (take k cs @ [Text (take so s)]
              @ (if so = eo then [] else [Text (take (eo - so) (drop so s))])
              @ [Text (drop eo s)] @ drop (Suc k) cs). query_node v c = None"
    using all by (auto dest: in_set_takeD in_set_dropD)
  then have "query_node v (unwrap_child (Suc k) (wrap_text k so eo v color (Elem pt a ph cs))) = None"
    using attr by (simp only: unwrap_wrap [OF k ck] query_node.simps query_list_None if_False)
  then show ?thesis by (rule query_normalize)
qed

text \<open>
  C4. Let \<open>tryApplyHighlight\<close> wrap the note's text below a container, in a document
  where no element carries the note's identifier yet (\<open>applyHighlightFromData\<close> calls
  it only then). The wrap leaves the text content of the container as it was;
  \<open>removeHighlight\<close> with the same identifier then succeeds, the new span is the
  marker it removes, no element carries the identifier afterwards, and the text content
  of the container, and of the whole document, is again what it was before the wrap.
  And \<open>removeHighlight\<close> leaves a document without such a marker as it is.
\<close>

theorem apply_remove_roundtrip:
  "(tryApplyHighlight d element nd = (Some marker, d') \<and> querySelector d (noteId nd) = None \<longrightarrow>
      (\<exists>d''. removeHighlight d' (noteId nd) = Inr d''
           \<and> node_at d element \<noteq> None
           \<and> map_option textContent (node_at d' element) = map_option textContent (node_at d element)
           \<and> map_option textContent (node_at d'' element) = map_option textContent (node_at d element)
           \<and> textContent d'' = textContent d
           \<and> querySelector d' (noteId nd) = Some marker
           \<and> querySelector d'' (noteId nd) = None))
 \<and> (querySelector d0 nid = None \<longrightarrow> removeHighlight d0 nid = Inr d0)"
proof (intro conjI impI)
  assume "querySelector d0 nid = None"
  then show "removeHighlight d0 nid = Inr d0" by (simp add: removeHighlight_def)
next
  assume a: "tryApplyHighlight d element nd = (Some marker, d') \<and> querySelector d (noteId nd) = None"
  then have t: "tryApplyHighlight d element nd = (Some marker, d')"
    and q: "querySelector d (noteId nd) = None" by simp_all
  let ?v = "noteId nd"
  from tryApply_Some [OF t] obtain r k pt a ph cs s i where
    par: "node_at d (element @ r) = Some (Elem pt a ph cs)" and k: "k < length cs"
    and ck: "cs ! k = Text s" and i: "indexOf s (noteText nd) = Some i"
    and m: "marker = element @ r @ [Suc k]"
    and d': "d' = modify_at (element @ r)
                  (wrap_text k i (i + length (noteText nd)) ?v (highlightColor nd)) d"
    by blast
  let ?W = "wrap_text k i (i + length (noteText nd)) ?v (highlightColor nd)"
  let ?F = "\<lambda>n. normalize (unwrap_child (Suc k) (?W n))"
  let ?P = "Elem pt a ph cs"
  from par obtain n where n: "node_at d element = Some n" and nr: "node_at n r = Some ?P"
    by (auto simp: node_at_append split: option.splits)
  have qd': "querySelector d' ?v = Some marker" using t q by (rule query_after_apply)
  have bl: "butlast marker = element @ r" "last marker = Suc k" "marker \<noteq> []"
    using m by (simp_all add: butlast_append)
  have rem: "removeHighlight d' ?v = Inr (modify_at (element @ r) ?F d)"
    using qd' bl by (simp add: removeHighlight_def d' modify_modify)
  have none: "query_node ?v d = None" using q by (simp add: querySelector_def)
  have pn: "query_node ?v ?P = None" using none par by (rule query_below_None)
  have tW: "textContent (?W ?P) = textContent ?P" using k ck i by (rule text_wrap)
  have tF: "textContent (?F ?P) = textContent ?P" using k ck i by (rule text_unwrap_wrap)
  have qF: "query_node ?v (?F ?P) = None" using k ck pn by (rule query_unwrap_wrap)
  have c0: "node_at d element \<noteq> None" using n by simp
  have "node_at d' element = Some (modify_at r ?W n)"
    unfolding d' using n by (rule node_at_modify_prefix)
  moreover have "textContent (modify_at r ?W n) = textContent n"
    using nr tW by (rule textContent_modify)
  ultimately have c1: "map_option textContent (node_at d' element) = map_option textContent (node_at d element)"
    using n by simp
  have "node_at (modify_at (element @ r) ?F d) element = Some (modify_at r ?F n)"
    using n by (rule node_at_modify_prefix)
  moreover have "textContent (modify_at r ?F n) = textContent n"
    using nr tF by (rule textContent_modify)
  ultimately have c2: "map_option textContent (node_at (modify_at (element @ r) ?F d) element)
        = map_option textContent (node_at d element)"
    using n by simp
  have c3: "textContent (modify_at (element @ r) ?F d) = textContent d"
    using par tF by (rule textContent_modify)
  have "query_node ?v (modify_at (element @ r) ?F d)
        = map_option (\<lambda>x. (element @ r) @ x) (query_node ?v (?F ?P))"
    using none par by (rule query_modify)
  then have c4: "querySelector (modify_at (element @ r) ?F d) ?v = None"
    using qF by (simp add: querySelector_def)
  show "\<exists>d''. removeHighlight d' (noteId nd) = Inr d''
           \<and> node_at d element \<noteq> None
           \<and> map_option textContent (node_at d' element) = map_option textContent (node_at d element)
           \<and> map_option textContent (node_at d'' element) = map_option textContent (node_at d element)
           \<and> textContent d'' = textContent d
           \<and> querySelector d' (noteId nd) = Some marker
           \<and> querySelector d'' (noteId nd) = None"
    using rem c0 c1 c2 c3 qd' c4 by blast
qed

lemma marked_eval:
  "tryApplyHighlight page_hello [1, 0] note_hello = (Some [1, 0, 1], page_hello_marked)"
  "querySelector page_hello (noteId note_hello) = None"
  "removeHighlight page_hello_marked (noteId note_hello) = Inr page_hello"
  "querySelector page_two (noteId note_hello) = None"
  by code_simp+

text \<open>
  C4, at an input: the marker of \<open>note_hello\<close> is placed in the paragraph and removed
  again; on this page, whose text nodes were merged already, the very same tree comes
  back.
\<close>

theorem apply_remove_roundtrip_witness:
  "tryApplyHighlight page_hello [1, 0] note_hello = (Some [1, 0, 1], page_hello_marked)
 \<and> querySelector page_hello (noteId note_hello) = None
 \<and> removeHighlight page_hello_marked (noteId note_hello) = Inr page_hello
 \<and> map_option textContent (node_at page_hello_marked [1, 0]) = map_option textContent (node_at page_hello [1, 0])
 \<and> querySelector page_hello_marked (noteId note_hello) = Some [1, 0, 1]
 \<and> querySelector page_two (noteId note_hello) = None
 \<and> removeHighlight page_two (noteId note_hello) = Inr page_two"
  using apply_remove_roundtrip
          [of page_hello "[1, 0]" note_hello "[1, 0, 1]" page_hello_marked page_two "noteId note_hello"]
        marked_eval
  by simp

lemma loading_eval':
  "document_body page_loading = Some 1"
  "querySelector page_hello (noteId note_hello) = None"
  "findElementContainingText page_hello (noteText note_hello) = Inr (Some [1, 0])"
  "querySelector page_hello_marked (noteId note_hello) = Some [1, 0, 1]"
  "findElementContainingText page_hello_marked (noteText note_hello) = Inr (Some [1, 0, 1])"
  by code_simp+

lemma marked_eval_Suc:
  "tryApplyHighlight page_hello [Suc 0, 0] note_hello = (Some [1, 0, 1], page_hello_marked)"
  using marked_eval(1) by simp

lemma trace_eval:
  "doc page_load_trace = page_hello_marked"
  "timers page_load_trace = [(1, 1000, RetryCb note_hello), (2, 30000, DisconnectCb)]"
  "pendingHighlights page_load_trace = []"
  "highlightObserver page_load_trace = None"
  "now page_load_trace = 500"
  by (simp_all add: page_load_trace_def step_def loadPage_def loadPageHighlights_def
        applyHighlightFromData_def initial_def loading_eval loading_eval' marked_eval marked_eval_Suc
        scheduleHighlightRetry_def setTimeout_def setupDynamicContentObserver_def
        fire_def run_callback_def attached_def observerCallback_def debounceDelayed_def
        querySelector_def [symmetric])

lemma trace_dup:
  "count_markers (noteId note_hello) (doc (step no_xpath Fire page_load_trace)) = 2"
proof -
  have "doc (step no_xpath Fire page_load_trace)
      = snd (tryApplyHighlight page_hello_marked [1, 0, 1] note_hello)"
    by (simp add: step_def fire_def trace_eval run_callback_def retryDelayed_def loading_eval'
          applyIn_def split: prod.splits)
  moreover have "count_markers (noteId note_hello)
      (snd (tryApplyHighlight page_hello_marked [1, 0, 1] note_hello)) = 2"
    by code_simp
  ultimately show ?thesis by simp
qed

text \<open>
  C3 on the code: two resolutions of the same note fail while the page is loading, and
  each leaves a retry timer. The text arrives. The first timer places a marker; the
  second, which does not look for an existing marker (lines 281-285), finds the text
  inside that marker and wraps it again: two elements carry the identifier. The same
  happens after a single page load, when the pass of the observer has placed the marker
  before the retry timer of the load fires.
\<close>

theorem retry_duplicates_marker:
  "applyHighlightFromData no_xpath note_hello (initial page_loading)
     = Inr (None, scheduleHighlightRetry note_hello (initial page_loading))
 \<and> applyHighlightFromData no_xpath note_hello (scheduleHighlightRetry note_hello (initial page_loading))
     = Inr (None, hello_scheduled_twice)
 \<and> timers hello_scheduled_twice = [(1, 1000, RetryCb note_hello), (2, 2000, RetryCb note_hello)]
 \<and> count_markers (noteId note_hello)
      (doc (run no_xpath [Mutate page_hello, Fire] hello_scheduled_twice)) = 1
 \<and> count_markers (noteId note_hello)
      (doc (run no_xpath [Mutate page_hello, Fire, Fire] hello_scheduled_twice)) = 2
 \<and> doc page_load_trace = page_hello_marked
 \<and> timers page_load_trace = [(1, 1000, RetryCb note_hello), (2, 30000, DisconnectCb)]
 \<and> count_markers (noteId note_hello) (doc (step no_xpath Fire page_load_trace)) = 2"
proof -
  have d: "doc (scheduleHighlightRetry note_hello (initial page_loading)) = page_loading"
          "doc (initial page_loading) = page_loading"
    by (simp_all add: scheduleHighlightRetry_def setTimeout_def initial_def Let_def)
  have a: "applyHighlightFromData no_xpath note_hello (initial page_loading)
     = Inr (None, scheduleHighlightRetry note_hello (initial page_loading))"
    by (simp add: applyHighlightFromData_def loading_eval d)
  have b: "applyHighlightFromData no_xpath note_hello (scheduleHighlightRetry note_hello (initial page_loading))
     = Inr (None, hello_scheduled_twice)"
    by (simp add: applyHighlightFromData_def loading_eval d hello_scheduled_twice_def)
  have "timers hello_scheduled_twice = [(1, 1000, RetryCb note_hello), (2, 2000, RetryCb note_hello)]"
    "count_markers (noteId note_hello)
      (doc (run no_xpath [Mutate page_hello, Fire] hello_scheduled_twice)) = 1"
    "count_markers (noteId note_hello)
      (doc (run no_xpath [Mutate page_hello, Fire, Fire] hello_scheduled_twice)) = 2"
    by code_simp+
  then show ?thesis using a b trace_eval(1,2) trace_dup by blast
qed

section \<open>The auto-disconnect of the observer\<close>

lemma grows_refl: "grows st st"
  by (simp add: grows_def)

lemma grows_split:
  assumes "grows st st'"
  obtains new where "timers st' = timers st @ new"
    and "\<forall>t \<in> set new. now st \<le> fst (snd t) \<and> nextTimer st \<le> fst t \<and> fst t < nextTimer st'"
    and "distinct (map fst new)"
proof -
  let ?new = "drop (length (timers st)) (timers st')"
  have tk: "take (length (timers st)) (timers st') = timers st"
    using assms by (simp add: grows_def)
  have "take (length (timers st)) (timers st') @ ?new = timers st'"
    by (rule append_take_drop_id)
  then have "timers st' = timers st @ ?new" unfolding tk by simp
  moreover have "\<forall>t \<in> set ?new. now st \<le> fst (snd t) \<and> nextTimer st \<le> fst t \<and> fst t < nextTimer st'"
    using assms by (simp add: grows_def list_all_iff)
  moreover have "distinct (map fst ?new)" using assms by (simp add: grows_def)
  ultimately show ?thesis using that by blast
qed

lemma growsI:
  assumes "now st' = now st" and "highlightObserver st' = highlightObserver st"
    and "nextTimer st \<le> nextTimer st'" and "timers st' = timers st @ new"
    and "\<forall>t \<in> set new. now st \<le> fst (snd t) \<and> nextTimer st \<le> fst t \<and> fst t < nextTimer st'"
    and "distinct (map fst new)"
  shows "grows st st'"
  using assms by (simp add: grows_def list_all_iff)

lemma grows_trans:
  assumes a: "grows st st'" and b: "grows st' st''"
  shows "grows st st''"
proof -
  from a obtain n1 where n1: "timers st' = timers st @ n1"
    and p1: "\<forall>t \<in> set n1. now st \<le> fst (snd t) \<and> nextTimer st \<le> fst t \<and> fst t < nextTimer st'"
    and d1: "distinct (map fst n1)" by (rule grows_split)
  from b obtain n2 where n2: "timers st'' = timers st' @ n2"
    and p2: "\<forall>t \<in> set n2. now st' \<le> fst (snd t) \<and> nextTimer st' \<le> fst t \<and> fst t < nextTimer st''"
    and d2: "distinct (map fst n2)" by (rule grows_split)
  have f: "now st' = now st" "highlightObserver st' = highlightObserver st" "nextTimer st \<le> nextTimer st'"
          "now st'' = now st'" "highlightObserver st'' = highlightObserver st'" "nextTimer st' \<le> nextTimer st''"
    using a b by (simp_all add: grows_def)
  have t: "timers st'' = timers st @ (n1 @ n2)" using n1 n2 by simp
  have p: "\<forall>t \<in> set (n1 @ n2). now st \<le> fst (snd t) \<and> nextTimer st \<le> fst t \<and> fst t < nextTimer st''"
    using p1 p2 f by fastforce
  have "fst ` set n1 \<inter> fst ` set n2 = {}"
    using p1 p2 by fastforce
  then have d: "distinct (map fst (n1 @ n2))" using d1 d2 by simp
  show ?thesis
    using f t p d by (intro growsI [where new = "n1 @ n2"]) simp_all
qed

lemma grows_inv:
  assumes g: "grows st st'" and t: "timers_ok st" and o: "observer_ok st"
  shows "timers_ok st' \<and> observer_ok st'"
proof -
  from g obtain new where n: "timers st' = timers st @ new"
    and p: "\<forall>t \<in> set new. now st \<le> fst (snd t) \<and> nextTimer st \<le> fst t \<and> fst t < nextTimer st'"
    and d: "distinct (map fst new)" by (rule grows_split)
  have f: "now st' = now st" "highlightObserver st' = highlightObserver st" "nextTimer st \<le> nextTimer st'"
    using g by (simp_all add: grows_def)
  from t have told: "\<forall>x \<in> set (timers st). now st \<le> fst (snd x) \<and> fst x < nextTimer st"
    and dold: "distinct (map fst (timers st))"
    by (simp_all add: timers_ok_def list_all_iff)
  have "fst ` set (timers st) \<inter> fst ` set new = {}" using told p by fastforce
  then have "distinct (map fst (timers st'))" using n d dold by simp
  moreover have "\<forall>x \<in> set (timers st'). now st' \<le> fst (snd x) \<and> fst x < nextTimer st'"
    using n told p f by fastforce
  ultimately have T: "timers_ok st'" by (simp add: timers_ok_def list_all_iff)
  have O: "observer_ok st'"
  proof (cases "highlightObserver st")
    case None
    then show ?thesis using f by (simp add: observer_ok_def)
  next
    case (Some ob)
    have 1: "case attachedAt ob of None \<Rightarrow> True
             | Some t0 \<Rightarrow> list_ex (\<lambda>t. snd (snd t) = DisconnectCb \<and> fst (snd t) \<le> t0 + 30000) (timers st')"
      using o Some n by (auto simp: observer_ok_def list_ex_iff split: option.splits)
    have 2: "case debounceTimer ob of None \<Rightarrow> True
             | Some j \<Rightarrow> j < nextTimer st'
                 \<and> list_all (\<lambda>t. fst t = j \<and> snd (snd t) \<noteq> DebounceCb \<longrightarrow> False) (timers st')"
    proof (cases "debounceTimer ob")
      case None
      then show ?thesis by simp
    next
      case (Some j)
      with o \<open>highlightObserver st = Some ob\<close> have j: "j < nextTimer st"
        and old: "\<forall>t \<in> set (timers st). fst t = j \<and> snd (snd t) \<noteq> DebounceCb \<longrightarrow> False"
        by (simp_all add: observer_ok_def list_all_iff)
      have "\<forall>t \<in> set new. fst t \<noteq> j" using p j by fastforce
      then show ?thesis using Some j old n f by (auto simp: list_all_iff)
    qed
    show ?thesis using Some f 1 2 by (simp add: observer_ok_def)
  qed
  show ?thesis using T O by simp
qed

lemma grows_same:
  assumes "now st' = now st" and "highlightObserver st' = highlightObserver st"
    and "nextTimer st' = nextTimer st" and "timers st' = timers st"
  shows "grows st st'"
  using assms by (simp add: grows_def)

lemma grows_setTimeout: "grows st (setTimeout cb d st)"
  by (rule growsI [where new = "[(nextTimer st, now st + d, cb)]"])
     (simp_all add: setTimeout_def)

lemma grows_schedule: "grows st (scheduleHighlightRetry nd st)"
proof -
  let ?c = "case retry st (noteId nd) of None \<Rightarrow> 0 | Some c \<Rightarrow> c"
  let ?st1 = "st\<lparr>retry := (retry st)(noteId nd \<mapsto> ?c + 1)\<rparr>"
  have "grows st ?st1" by (rule grows_same) simp_all
  moreover have "grows ?st1 (setTimeout (RetryCb nd) (1000 * (?c + 1)) ?st1)"
    by (rule grows_setTimeout)
  ultimately have "grows st (setTimeout (RetryCb nd) (1000 * (?c + 1)) ?st1)"
    by (rule grows_trans)
  then show ?thesis by (simp add: scheduleHighlightRetry_def Let_def grows_refl)
qed

lemma grows_applyIn: "applyIn e nd st = (r, st') \<Longrightarrow> grows st st'"
  by (rule grows_same) (auto simp: applyIn_def split: prod.splits)

lemma grows_apply:
  assumes "applyHighlightFromData ev nd st = Inr (r, st')"
  shows "grows st st'"
proof (cases "querySelector (doc st) (noteId nd)")
  case (Some m)
  with assms have "st' = st" by (simp add: applyHighlightFromData_def)
  then show ?thesis by (simp add: grows_refl)
next
  case None
  note q = None
  show ?thesis
  proof (cases "getElementByXPath ev (doc st) (elementPath nd)")
    case (Some e)
    with assms q have "applyIn e nd st = (r, st')" by (simp add: applyHighlightFromData_def)
    then show ?thesis by (rule grows_applyIn)
  next
    case None
    show ?thesis
    proof (cases "findElementContainingText (doc st) (noteText nd)")
      case (Inl err)
      with assms q None show ?thesis by (simp add: applyHighlightFromData_def)
    next
      case (Inr found)
      show ?thesis
      proof (cases found)
        case None': None
        with assms q None Inr have "st' = scheduleHighlightRetry nd st"
          by (simp add: applyHighlightFromData_def)
        then show ?thesis by (simp add: grows_schedule)
      next
        case (Some e)
        with assms q None Inr have "applyIn e nd st = (r, st')"
          by (simp add: applyHighlightFromData_def)
        then show ?thesis by (rule grows_applyIn)
      qed
    qed
  qed
qed

lemma grows_showToast: "grows st (snd (showToast message duration st))"
proof (cases "getElementById (doc st) ''mozhii-toast'' = Some []")
  case True
  then show ?thesis by (simp add: showToast_def grows_refl)
next
  case False
  let ?d1 = "withoutToast (doc st)"
  show ?thesis
  proof (cases "document_body ?d1")
    case None
    have "grows st (st\<lparr>doc := ?d1\<rparr>)" by (rule grows_same) simp_all
    then show ?thesis using False None by (simp add: showToast_def appendToast_def)
  next
    case (Some b)
    let ?st1 = "st\<lparr>doc := modify_at [b] (append_toast message (nextTimer st)) ?d1\<rparr>"
    have "grows st ?st1" by (rule grows_same) simp_all
    moreover have "grows ?st1 (setTimeout (ToastHideCb (nextTimer st)) duration ?st1)"
      by (rule grows_setTimeout)
    ultimately have "grows st (setTimeout (ToastHideCb (nextTimer st)) duration ?st1)"
      by (rule grows_trans)
    then show ?thesis using False Some by (simp add: showToast_def appendToast_def)
  qed
qed

lemma grows_toastHideDelayed: "grows st (toastHideDelayed key st)"
  unfolding toastHideDelayed_def by (rule grows_setTimeout)

lemma grows_toastRemoveDelayed: "grows st (toastRemoveDelayed key st)"
proof (cases "attr_node node_key (show_nat key) (doc st)")
  case None
  then show ?thesis by (simp add: toastRemoveDelayed_def grows_refl)
next
  case (Some p)
  show ?thesis
  proof (cases "p = []")
    case True
    with Some show ?thesis by (simp add: toastRemoveDelayed_def grows_refl)
  next
    case False
    have "grows st (st\<lparr>doc := remove_at p (doc st)\<rparr>)" by (rule grows_same) simp_all
    with Some False show ?thesis by (simp add: toastRemoveDelayed_def)
  qed
qed

lemma grows_restoreDelayed: "grows st (restoreDelayed ev nd st)"
proof (cases "applyHighlightFromData ev nd st")
  case (Inl err)
  then show ?thesis by (simp add: restoreDelayed_def grows_refl)
next
  case (Inr res)
  obtain r st' where res: "res = (r, st')" by (cases res) auto
  with Inr have g: "grows st st'" using grows_apply by blast
  show ?thesis
  proof (cases r)
    case None
    have "grows st' (snd (showToast could_not_locate_message 3000 st'))"
      by (rule grows_showToast)
    with g have "grows st (snd (showToast could_not_locate_message 3000 st'))"
      by (rule grows_trans)
    then show ?thesis using Inr res None by (simp add: restoreDelayed_def)
  next
    case (Some m)
    have "grows st' (setTimeout PulseOffCb 2500 st')" by (rule grows_setTimeout)
    with g have "grows st (setTimeout PulseOffCb 2500 st')" by (rule grows_trans)
    then show ?thesis using Inr res Some by (simp add: restoreDelayed_def)
  qed
qed

lemma grows_retryDelayed: "grows st (retryDelayed nd st)"
  by (rule grows_same)
     (auto simp: retryDelayed_def applyIn_def split: sum.splits option.splits prod.splits)

lemma grows_loadEach: "grows st (fst (loadEach ev ns st))"
proof (induction ns arbitrary: st)
  case Nil
  show ?case by (simp add: grows_refl)
next
  case (Cons nt ns)
  show ?case
  proof (cases "applyHighlightFromData ev nt st")
    case (Inl err)
    then show ?thesis by (simp add: grows_refl)
  next
    case (Inr res)
    obtain r st' where res: "res = (r, st')" by (cases res) auto
    with Inr have g: "grows st st'" using grows_apply by blast
    show ?thesis
    proof (cases r)
      case None
      have "grows st' (fst (loadEach ev ns st'))" by (rule Cons.IH)
      with g have "grows st (fst (loadEach ev ns st'))" by (rule grows_trans)
      then show ?thesis using Inr res None by simp
    next
      case (Some m)
      let ?st2 = "st'\<lparr>pendingHighlights :=
                   filter (\<lambda>n. noteId n \<noteq> noteId nt) (pendingHighlights st')\<rparr>"
      have "grows st' ?st2" by (rule grows_same) simp_all
      with g have g2: "grows st ?st2" by (rule grows_trans)
      have "grows ?st2 (fst (loadEach ev ns ?st2))" by (rule Cons.IH)
      with g2 have "grows st (fst (loadEach ev ns ?st2))" by (rule grows_trans)
      then show ?thesis using Inr res Some by simp
    qed
  qed
qed

lemma grows_selection: "grows st (snd (applyHighlightToSelection nid color st))"
  by (rule grows_same)
     (auto simp: applyHighlightToSelection_def split: option.splits list.splits)

lemma grows_onMessage: "grows st (onMessage ctx msg st)"
proof (cases "extensionContextValid st \<and> ctx")
  case False
  then show ?thesis by (auto simp: onMessage_def grows_refl)
next
  case True
  show ?thesis
  proof (cases msg)
    case CaptureNote
    then show ?thesis using True by (simp add: onMessage_def grows_refl)
  next
    case (HighlightSaved nid)
    then show ?thesis using True by (simp add: onMessage_def grows_selection)
  next
    case (ShowSaveConfirmation nd)
    obtain err st1 where r: "showToast saved_message 2500 st = (err, st1)"
      by (cases "showToast saved_message 2500 st") auto
    have g1: "grows st st1" using grows_showToast [of st saved_message 2500] r by simp
    show ?thesis
    proof (cases err)
      case (Some e)
      then show ?thesis using True ShowSaveConfirmation r g1 by (simp add: onMessage_def)
    next
      case None
      have "grows st1 (snd (applyHighlightToSelection (noteId nd) (highlightColor nd) st1))"
        by (rule grows_selection)
      with g1 have "grows st (snd (applyHighlightToSelection (noteId nd) (highlightColor nd) st1))"
        by (rule grows_trans)
      then show ?thesis using True ShowSaveConfirmation r None by (simp add: onMessage_def)
    qed
  next
    case (RestoreNote nd)
    then show ?thesis using True by (simp add: onMessage_def restoreNoteContext_def grows_setTimeout)
  next
    case (RemoveHighlight nid)
    have "grows st (case removeHighlight (doc st) nid of Inl e \<Rightarrow> st | Inr d' \<Rightarrow> st\<lparr>doc := d'\<rparr>)"
      by (rule grows_same) (auto split: sum.splits)
    then show ?thesis using True RemoveHighlight by (simp add: onMessage_def)
  next
    case Ping
    then show ?thesis using True by (simp add: onMessage_def grows_refl)
  next
    case UnknownAction
    then show ?thesis using True by (simp add: onMessage_def grows_refl)
  qed
qed

lemma loop_inv_grows: "loop_inv st \<Longrightarrow> grows st st' \<Longrightarrow> loop_inv st'"
  using grows_inv by (simp add: loop_inv_def)

lemma loop_inv_no_observer:
  assumes "timers_ok st" and "highlightObserver st' = None"
    and "now st' = now st" and "nextTimer st' = nextTimer st" and "timers st' = timers st"
  shows "loop_inv st'"
  using assms by (simp add: loop_inv_def timers_ok_def observer_ok_def)

lemma loop_inv_initial: "loop_inv (initial d)"
  by (simp add: loop_inv_def timers_ok_def observer_ok_def initial_def)

lemma loop_inv_disconnect: "loop_inv st \<Longrightarrow> loop_inv (disconnectDelayed st)"
proof -
  assume i: "loop_inv st"
  then have t: "timers_ok st" by (simp add: loop_inv_def)
  show ?thesis
    by (rule loop_inv_no_observer [OF t]) (simp_all add: disconnectDelayed_def)
qed

lemma loop_inv_debounce: "loop_inv st \<Longrightarrow> loop_inv (debounceDelayed st)"
proof -
  assume i: "loop_inv st"
  then have t: "timers_ok st" by (simp add: loop_inv_def)
  show ?thesis
  proof (cases "highlightObserver (debounceDelayed st) = None")
    case True
    show ?thesis
      by (rule loop_inv_no_observer [OF t True])
         (simp_all add: debounceDelayed_def Let_def split: prod.splits option.splits)
  next
    case False
    have "grows st (debounceDelayed st)"
      by (rule grows_same)
         (use False in \<open>auto simp: debounceDelayed_def Let_def split: prod.splits option.splits if_splits\<close>)
    with i show ?thesis by (rule loop_inv_grows)
  qed
qed

lemma loop_inv_setup: "loop_inv st \<Longrightarrow> loop_inv (setupDynamicContentObserver st)"
proof -
  assume i: "loop_inv st"
  then have t: "timers_ok st" by (simp add: loop_inv_def)
  show ?thesis
  proof (cases "highlightObserver st")
    case (Some ob)
    then show ?thesis using i by (simp add: setupDynamicContentObserver_def)
  next
    case None
    show ?thesis
    proof (cases "document_body (doc st)")
      case None': None
      have "setupDynamicContentObserver st
          = st\<lparr>highlightObserver := Some \<lparr>attachedAt = None, debounceTimer = None\<rparr>\<rparr>"
        using None None' by (simp add: setupDynamicContentObserver_def)
      then show ?thesis using t by (simp add: loop_inv_def timers_ok_def observer_ok_def)
    next
      case (Some b)
      let ?st1 = "st\<lparr>highlightObserver := Some \<lparr>attachedAt = Some (now st), debounceTimer = None\<rparr>\<rparr>"
      have eq: "setupDynamicContentObserver st = setTimeout DisconnectCb 30000 ?st1"
        using None Some by (simp add: setupDynamicContentObserver_def)
      have t1: "timers_ok ?st1" using t by (simp add: timers_ok_def)
      have o1: "observer_ok (setupDynamicContentObserver st)"
        by (simp add: eq observer_ok_def setTimeout_def)
      have "timers_ok (setupDynamicContentObserver st)"
        using t1 by (simp add: eq timers_ok_def setTimeout_def list_all_iff) fastforce
      then show ?thesis using o1 by (simp add: loop_inv_def)
    qed
  qed
qed

lemma observer_ok_cong:
  assumes "highlightObserver st' = highlightObserver st" and "timers st' = timers st"
    and "nextTimer st' = nextTimer st"
  shows "observer_ok st' = observer_ok st"
  using assms by (simp add: observer_ok_def cong: option.case_cong)

lemma earliest_min:
  "earliest ts = Some t \<Longrightarrow> t \<in> set ts \<and> (\<forall>u \<in> set ts. fst (snd t) \<le> fst (snd u))"
proof (induction ts arbitrary: t)
  case Nil
  then show ?case by simp
next
  case (Cons x ts)
  show ?case
  proof (cases "earliest ts")
    case None
    then have "ts = []" by (cases ts) (auto split: option.splits if_splits)
    with Cons.prems None show ?thesis by simp
  next
    case (Some u)
    from Cons.IH [OF Some] have u: "u \<in> set ts" "\<forall>v \<in> set ts. fst (snd u) \<le> fst (snd v)"
      by simp_all
    show ?thesis
    proof (cases "fst (snd u) < fst (snd x)")
      case True
      with Cons.prems Some have "t = u" by simp
      then show ?thesis using u True by auto
    next
      case False
      with Cons.prems Some have "t = x" by simp
      then show ?thesis using u False by fastforce
    qed
  qed
qed

lemma same_id_same_timer:
  assumes "distinct (map fst ts)" and "x \<in> set ts" and "y \<in> set ts" and "fst x = fst y"
  shows "x = y"
  using assms by (meson distinct_map inj_onD)

text \<open>The state in which the callback of the fired timer runs.\<close>

lemma fired_timers_ok:
  assumes t: "timers_ok st" and e: "earliest (timers st) = Some (i, due, cb)"
  shows "timers_ok (st\<lparr>timers := filter (\<lambda>t. fst t \<noteq> i) (timers st), now := max (now st) due\<rparr>)"
proof -
  from earliest_min [OF e] have mem: "(i, due, cb) \<in> set (timers st)"
    and least: "\<forall>u \<in> set (timers st). due \<le> fst (snd u)" by auto
  from t have old: "\<forall>x \<in> set (timers st). now st \<le> fst (snd x) \<and> fst x < nextTimer st"
    and d: "distinct (map fst (timers st))"
    by (simp_all add: timers_ok_def list_all_iff)
  have "list_all (\<lambda>x. max (now st) due \<le> fst (snd x) \<and> fst x < nextTimer st)
          (filter (\<lambda>t. fst t \<noteq> i) (timers st))"
    unfolding list_all_iff using old least by auto
  moreover have "distinct (map fst (filter (\<lambda>t. fst t \<noteq> i) (timers st)))"
    using d by (rule distinct_map_filter)
  ultimately show ?thesis by (simp add: timers_ok_def)
qed

lemma fired_observer_ok:
  assumes t: "timers_ok st" and o: "observer_ok st"
    and e: "earliest (timers st) = Some (i, due, cb)" and cb: "cb \<noteq> DisconnectCb"
  shows "observer_ok (st\<lparr>timers := filter (\<lambda>t. fst t \<noteq> i) (timers st), now := max (now st) due\<rparr>)"
proof (cases "highlightObserver st")
  case None
  then show ?thesis by (simp add: observer_ok_def)
next
  case (Some ob)
  from earliest_min [OF e] have mem: "(i, due, cb) \<in> set (timers st)" by simp
  from t have d: "distinct (map fst (timers st))" by (simp add: timers_ok_def)
  have 1: "case attachedAt ob of None \<Rightarrow> True
           | Some t0 \<Rightarrow> list_ex (\<lambda>t. snd (snd t) = DisconnectCb \<and> fst (snd t) \<le> t0 + 30000)
                          (filter (\<lambda>t. fst t \<noteq> i) (timers st))"
  proof (cases "attachedAt ob")
    case None
    then show ?thesis by simp
  next
    case (Some t0)
    with o \<open>highlightObserver st = Some ob\<close> obtain w where
      w: "w \<in> set (timers st)" "snd (snd w) = DisconnectCb" "fst (snd w) \<le> t0 + 30000"
      by (auto simp: observer_ok_def list_ex_iff)
    have "fst w \<noteq> i"
    proof
      assume "fst w = i"
      then have "w = (i, due, cb)" using same_id_same_timer [OF d w(1) mem] by simp
      with w(2) cb show False by simp
    qed
    with w have "w \<in> set (filter (\<lambda>t. fst t \<noteq> i) (timers st))" by simp
    with w(2,3) have "list_ex (\<lambda>t. snd (snd t) = DisconnectCb \<and> fst (snd t) \<le> t0 + 30000)
                          (filter (\<lambda>t. fst t \<noteq> i) (timers st))"
      unfolding list_ex_iff by blast
    then show ?thesis using Some by simp
  qed
  have 2: "case debounceTimer ob of None \<Rightarrow> True
           | Some j \<Rightarrow> j < nextTimer st
               \<and> list_all (\<lambda>t. fst t = j \<and> snd (snd t) \<noteq> DebounceCb \<longrightarrow> False)
                    (filter (\<lambda>t. fst t \<noteq> i) (timers st))"
  proof (cases "debounceTimer ob")
    case None
    then show ?thesis by simp
  next
    case (Some j)
    with o \<open>highlightObserver st = Some ob\<close> have j: "j < nextTimer st"
      and old: "list_all (\<lambda>t. fst t = j \<and> snd (snd t) \<noteq> DebounceCb \<longrightarrow> False) (timers st)"
      by (simp_all add: observer_ok_def)
    from old have "list_all (\<lambda>t. fst t = j \<and> snd (snd t) \<noteq> DebounceCb \<longrightarrow> False)
                     (filter (\<lambda>t. fst t \<noteq> i) (timers st))"
      unfolding list_all_iff by simp
    then show ?thesis using Some j by simp
  qed
  show ?thesis using Some 1 2 by (simp add: observer_ok_def split: option.splits)
qed

lemma loop_inv_fire: "loop_inv st \<Longrightarrow> loop_inv (fire ev st)"
proof -
  assume i: "loop_inv st"
  then have t: "timers_ok st" and o: "observer_ok st" by (simp_all add: loop_inv_def)
  show ?thesis
  proof (cases "earliest (timers st)")
    case None
    then show ?thesis using i by (simp add: fire_def)
  next
    case (Some x)
    obtain k due cb where x: "x = (k, due, cb)" by (cases x) auto
    let ?st1 = "st\<lparr>timers := filter (\<lambda>t. fst t \<noteq> k) (timers st), now := max (now st) due\<rparr>"
    have e: "earliest (timers st) = Some (k, due, cb)" using Some x by simp
    have f: "fire ev st = run_callback ev cb ?st1" using e by (simp add: fire_def)
    have t1: "timers_ok ?st1" using t e by (rule fired_timers_ok)
    show ?thesis
    proof (cases cb)
      case DisconnectCb
      have "loop_inv (disconnectDelayed ?st1)"
        by (rule loop_inv_no_observer [OF t1]) (simp_all add: disconnectDelayed_def)
      then show ?thesis using f DisconnectCb by (simp add: run_callback_def)
    next
      case (RetryCb nd)
      then have "observer_ok ?st1" using fired_observer_ok [OF t o e] by simp
      with t1 have "loop_inv ?st1" by (simp add: loop_inv_def)
      then have "loop_inv (retryDelayed nd ?st1)" using grows_retryDelayed by (rule loop_inv_grows)
      then show ?thesis using f RetryCb by (simp add: run_callback_def)
    next
      case (RestoreCb nd)
      then have "observer_ok ?st1" using fired_observer_ok [OF t o e] by simp
      with t1 have "loop_inv ?st1" by (simp add: loop_inv_def)
      then have "loop_inv (restoreDelayed ev nd ?st1)" using grows_restoreDelayed by (rule loop_inv_grows)
      then show ?thesis using f RestoreCb by (simp add: run_callback_def)
    next
      case PulseOffCb
      then have "observer_ok ?st1" using fired_observer_ok [OF t o e] by simp
      with t1 have "loop_inv ?st1" by (simp add: loop_inv_def)
      then show ?thesis using f PulseOffCb by (simp add: run_callback_def)
    next
      case (ToastHideCb key)
      then have "observer_ok ?st1" using fired_observer_ok [OF t o e] by simp
      with t1 have "loop_inv ?st1" by (simp add: loop_inv_def)
      then have "loop_inv (toastHideDelayed key ?st1)"
        using grows_toastHideDelayed by (rule loop_inv_grows)
      then show ?thesis using f ToastHideCb by (simp add: run_callback_def)
    next
      case (ToastRemoveCb key)
      then have "observer_ok ?st1" using fired_observer_ok [OF t o e] by simp
      with t1 have "loop_inv ?st1" by (simp add: loop_inv_def)
      then have "loop_inv (toastRemoveDelayed key ?st1)"
        using grows_toastRemoveDelayed by (rule loop_inv_grows)
      then show ?thesis using f ToastRemoveCb by (simp add: run_callback_def)
    next
      case DebounceCb
      then have "observer_ok ?st1" using fired_observer_ok [OF t o e] by simp
      with t1 have "loop_inv ?st1" by (simp add: loop_inv_def)
      then have "loop_inv (debounceDelayed ?st1)" by (rule loop_inv_debounce)
      then show ?thesis using f DebounceCb by (simp add: run_callback_def)
    qed
  qed
qed

lemma loop_inv_observerCallback: "loop_inv st \<Longrightarrow> loop_inv (observerCallback st)"
proof -
  assume i: "loop_inv st"
  then have t: "timers_ok st" and o: "observer_ok st" by (simp_all add: loop_inv_def)
  show ?thesis
  proof (cases "highlightObserver st")
    case None
    then show ?thesis using i by (simp add: observerCallback_def)
  next
    case (Some ob)
    define keep where "keep = (case debounceTimer ob of None \<Rightarrow> timers st
                               | Some j \<Rightarrow> filter (\<lambda>t. fst t \<noteq> j) (timers st))"
    have res: "observerCallback st =
        st\<lparr>timers := keep @ [(nextTimer st, now st + 500, DebounceCb)],
           nextTimer := Suc (nextTimer st),
           highlightObserver := Some (ob\<lparr>debounceTimer := Some (nextTimer st)\<rparr>)\<rparr>"
      using Some
      by (cases "debounceTimer ob")
         (simp_all add: observerCallback_def keep_def clearTimeout_def setTimeout_def Let_def)
    from t have old: "\<forall>x \<in> set (timers st). now st \<le> fst (snd x) \<and> fst x < nextTimer st"
      and d: "distinct (map fst (timers st))"
      by (simp_all add: timers_ok_def list_all_iff)
    have sub: "set keep \<subseteq> set (timers st)"
      by (cases "debounceTimer ob") (auto simp: keep_def)
    have dk: "distinct (map fst keep)"
      using d by (cases "debounceTimer ob") (simp_all add: keep_def distinct_map_filter)
    have fresh: "\<forall>x \<in> set keep. fst x \<noteq> nextTimer st" using sub old by fastforce
    have "list_all (\<lambda>x. now st \<le> fst (snd x) \<and> fst x < Suc (nextTimer st))
            (keep @ [(nextTimer st, now st + 500, DebounceCb)])"
      unfolding list_all_iff using sub old by fastforce
    moreover have "distinct (map fst (keep @ [(nextTimer st, now st + 500, DebounceCb)]))"
      using dk fresh by auto
    ultimately have T: "timers_ok (observerCallback st)"
      by (simp add: res timers_ok_def)
    have 1: "case attachedAt ob of None \<Rightarrow> True
           | Some t0 \<Rightarrow> list_ex (\<lambda>t. snd (snd t) = DisconnectCb \<and> fst (snd t) \<le> t0 + 30000)
                          (keep @ [(nextTimer st, now st + 500, DebounceCb)])"
    proof (cases "attachedAt ob")
      case None
      then show ?thesis by simp
    next
      case (Some t0)
      with o \<open>highlightObserver st = Some ob\<close> obtain w where
        w: "w \<in> set (timers st)" "snd (snd w) = DisconnectCb" "fst (snd w) \<le> t0 + 30000"
        by (auto simp: observer_ok_def list_ex_iff)
      have "w \<in> set keep"
      proof (cases "debounceTimer ob")
        case None
        then show ?thesis using w by (simp add: keep_def)
      next
        case (Some j)
        with o \<open>highlightObserver st = Some ob\<close>
        have "\<forall>t \<in> set (timers st). fst t = j \<and> snd (snd t) \<noteq> DebounceCb \<longrightarrow> False"
          by (simp add: observer_ok_def list_all_iff)
        with w have "fst w \<noteq> j" by auto
        then show ?thesis using w Some by (simp add: keep_def)
      qed
      with w(2,3) have "list_ex (\<lambda>t. snd (snd t) = DisconnectCb \<and> fst (snd t) \<le> t0 + 30000)
                          (keep @ [(nextTimer st, now st + 500, DebounceCb)])"
        unfolding list_ex_iff by auto
      then show ?thesis using Some by simp
    qed
    have 2: "list_all (\<lambda>t. fst t = nextTimer st \<and> snd (snd t) \<noteq> DebounceCb \<longrightarrow> False)
               (keep @ [(nextTimer st, now st + 500, DebounceCb)])"
      unfolding list_all_iff using fresh by auto
    have O: "observer_ok (observerCallback st)"
      using 1 2 by (simp add: res observer_ok_def split: option.splits)
    show ?thesis using T O by (simp add: loop_inv_def)
  qed
qed

lemma loop_inv_loadPage: "loop_inv st \<Longrightarrow> loop_inv (loadPage ev outcome st)"
proof -
  assume i: "loop_inv st"
  then have t: "timers_ok st" by (simp add: loop_inv_def)
  show ?thesis
  proof (cases outcome)
    case ContextGone
    have "grows st (st\<lparr>extensionContextValid := False\<rparr>)" by (rule grows_same) simp_all
    with i show ?thesis using ContextGone by (simp add: loadPage_def loop_inv_grows)
  next
    case SendInvalidated
    have "loop_inv (st\<lparr>extensionContextValid := False, highlightObserver := None\<rparr>)"
      by (rule loop_inv_no_observer [OF t]) simp_all
    then show ?thesis using SendInvalidated by (simp add: loadPage_def)
  next
    case SendFailed
    then show ?thesis using i by (simp add: loadPage_def)
  next
    case NoResponse
    then show ?thesis using i by (simp add: loadPage_def)
  next
    case (Response ns)
    let ?st0 = "st\<lparr>pendingHighlights := ns\<rparr>"
    have "grows st ?st0" by (rule grows_same) simp_all
    moreover have "grows ?st0 (fst (loadEach ev ns ?st0))" by (rule grows_loadEach)
    ultimately have "grows st (fst (loadEach ev ns ?st0))" by (rule grows_trans)
    with i have l: "loop_inv (fst (loadEach ev ns ?st0))" by (rule loop_inv_grows)
    obtain s1 ok where r: "loadEach ev ns ?st0 = (s1, ok)" by (cases "loadEach ev ns ?st0") auto
    have "loop_inv (loadPageHighlights ev ns st)"
    proof (cases "ok \<and> pendingHighlights s1 \<noteq> []")
      case True
      then have "loadPageHighlights ev ns st = setupDynamicContentObserver s1"
        using r by (simp add: loadPageHighlights_def)
      then show ?thesis using l r loop_inv_setup by simp
    next
      case False
      then have "loadPageHighlights ev ns st = s1"
        using r by (cases ok) (simp_all add: loadPageHighlights_def)
      then show ?thesis using l r by simp
    qed
    then show ?thesis using Response by (simp add: loadPage_def)
  qed
qed

lemma loop_inv_step: "loop_inv st \<Longrightarrow> loop_inv (step ev e st)"
proof -
  assume i: "loop_inv st"
  show ?thesis
  proof (cases e)
    case Fire
    then show ?thesis using i by (simp add: step_def loop_inv_fire)
  next
    case (Advance t)
    have "loop_inv (st\<lparr>now := t\<rparr>)" if a: "list_all (\<lambda>x. t \<le> fst (snd x)) (timers st)"
    proof -
      from i have old: "list_all (\<lambda>x. now st \<le> fst (snd x) \<and> fst x < nextTimer st) (timers st)"
        and d: "distinct (map fst (timers st))" and o: "observer_ok st"
        by (simp_all add: loop_inv_def timers_ok_def)
      have "list_all (\<lambda>x. t \<le> fst (snd x) \<and> fst x < nextTimer st) (timers st)"
        using a old unfolding list_all_iff by simp
      then have "timers_ok (st\<lparr>now := t\<rparr>)" using d by (simp add: timers_ok_def)
      moreover have "observer_ok (st\<lparr>now := t\<rparr>) = observer_ok st"
        by (rule observer_ok_cong) simp_all
      ultimately show ?thesis using o by (simp add: loop_inv_def)
    qed
    then show ?thesis using i Advance by (simp add: step_def)
  next
    case (Mutate d')
    have "grows st (st\<lparr>doc := d'\<rparr>)" by (rule grows_same) simp_all
    with i show ?thesis using Mutate by (simp add: step_def loop_inv_grows)
  next
    case Notify
    then show ?thesis using i by (simp add: step_def loop_inv_observerCallback)
  next
    case (Message ctx msg)
    then show ?thesis using i grows_onMessage by (simp add: step_def loop_inv_grows)
  next
    case (Load outcome)
    then show ?thesis using i by (simp add: step_def loop_inv_loadPage)
  next
    case (Select sel)
    have "grows st (st\<lparr>selection := sel\<rparr>)" by (rule grows_same) simp_all
    with i show ?thesis using Select by (simp add: step_def loop_inv_grows)
  qed
qed

lemma reachable_loop_inv: "reachable ev st \<Longrightarrow> loop_inv st"
  by (induction rule: reachable.induct) (simp_all add: loop_inv_initial loop_inv_step)

lemma reachable_run: "reachable ev st \<Longrightarrow> reachable ev (run ev es st)"
  by (induction es arbitrary: st) (simp_all add: reachable_step)

text \<open>
  C8. In every state the content script can reach, whatever the page, the messages and
  the mutations do, an observer that was attached at time \<open>t0\<close> is found attached at
  most until \<open>t0 + 30000\<close> ms: its auto-disconnect timer is never cancelled, and the
  clock does not pass a timer that is due. Neither the size of \<open>pendingHighlights\<close>
  nor the outcome of any resolution matters.
\<close>

theorem observer_hard_cap:
  assumes "reachable ev st" and "highlightObserver st = Some ob" and "attachedAt ob = Some t0"
  shows "now st \<le> t0 + 30000"
proof -
  from assms(1) have "loop_inv st" by (rule reachable_loop_inv)
  then have t: "\<forall>x \<in> set (timers st). now st \<le> fst (snd x)"
    and o: "observer_ok st"
    by (simp_all add: loop_inv_def timers_ok_def list_all_iff)
  from o assms(2,3) obtain w where "w \<in> set (timers st)" "fst (snd w) \<le> t0 + 30000"
    by (auto simp: observer_ok_def list_ex_iff)
  with t show ?thesis by fastforce
qed

lemma gone_eval':
  "querySelector page_hello (noteId note_gone) = None"
  "getElementByXPath no_xpath page_hello (elementPath note_gone) = None"
  "findElementContainingText page_hello (noteText note_gone) = Inr None"
  "document_body page_hello = Some 1"
  by code_simp+

lemma watching_eval:
  "highlightObserver watching = Some \<lparr>attachedAt = Some 0, debounceTimer = None\<rparr>"
  "now watching = 29000"
  "timers watching = [(2, 30000, DisconnectCb)]"
  "pendingHighlights watching = [note_gone]"
  by (simp_all add: watching_def step_def loadPage_def loadPageHighlights_def
        applyHighlightFromData_def initial_def gone_eval' scheduleHighlightRetry_def
        setTimeout_def setupDynamicContentObserver_def fire_def run_callback_def
        retryDelayed_def)

text \<open>
  C8, at an input: 29 seconds after the attachment the observer is still there, with a
  note pending that never resolves; the next timer to fire is the auto-disconnect, at
  30000 ms, and it removes the observer.
\<close>

theorem observer_hard_cap_witness:
  "reachable no_xpath watching
 \<and> highlightObserver watching = Some \<lparr>attachedAt = Some 0, debounceTimer = None\<rparr>
 \<and> attachedAt \<lparr>attachedAt = Some 0, debounceTimer = None\<rparr> = Some 0
 \<and> now watching = 29000
 \<and> now watching \<le> 0 + 30000
 \<and> highlightObserver (step no_xpath Fire watching) = None
 \<and> now (step no_xpath Fire watching) = 30000"
proof -
  have r: "reachable no_xpath watching"
    unfolding watching_def by (rule reachable_run) (rule reachable_initial)
  have a: "attachedAt \<lparr>attachedAt = Some 0, debounceTimer = None\<rparr> = Some 0" by simp
  have f: "highlightObserver (step no_xpath Fire watching) = None"
          "now (step no_xpath Fire watching) = 30000"
    by (simp_all add: step_def fire_def watching_eval run_callback_def disconnectDelayed_def)
  from observer_hard_cap [OF r watching_eval(1) a] watching_eval r f
  show ?thesis by simp
qed

end
